theory Spec2Isabelle
  imports Main "HOL-Library.Word" "HOL-Library.List_Lexorder" "HOL-Library.Multiset"
begin

section \<open>Integers, byte strings and Go library functions\<close>

text \<open>
  The source is \<open>angine/types/validator_set.go\<close>. Its integers are \<open>def.INT\<close>, a signed
  64-bit integer (the source converts it to \<open>int64\<close> for the heap key and marks its sums
  with "mind overflow"). A \<open>def.INT\<close> (here \<open>def_INT\<close>) is modelled as an \<open>int\<close>, and
  every addition, subtraction and multiplication of the source is followed by \<open>wrap64\<close>,
  the two's complement wrap-around. Go's \<open>/\<close> truncates towards zero: \<open>go_div\<close>.
\<close>

type_synonym byte = "8 word"
type_synonym bytes = "byte list"
type_synonym def_INT = int

definition wrap64 :: "int \<Rightarrow> def_INT" where
  "wrap64 x = (x + 2 ^ 63) mod 2 ^ 64 - 2 ^ 63"

definition go_div :: "def_INT \<Rightarrow> def_INT \<Rightarrow> def_INT" where
  "go_div a b = sgn a * sgn b * (\<bar>a\<bar> div \<bar>b\<bar>)"

text \<open>
  \<open>bytes.Compare\<close> of the Go library: -1, 0 or 1 for the lexicographic order of two byte
  strings, bytes read unsigned. The order \<open><\<close> on \<open>bytes\<close> is that lexicographic order.
\<close>

definition bytes_Compare :: "bytes \<Rightarrow> bytes \<Rightarrow> int" where
  "bytes_Compare a b = (if a < b then - 1 else if a = b then 0 else 1)"

text \<open>
  \<open>sort.Search(n, f)\<close> of the Go library, as it is written there: a binary search for the
  smallest index in \<open>[0, n)\<close> at which \<open>f\<close> holds, \<open>n\<close> when there is none.
\<close>

function sort_Search_loop :: "(nat \<Rightarrow> bool) \<Rightarrow> nat \<Rightarrow> nat \<Rightarrow> nat" where
  "sort_Search_loop f i j =
     (if i < j
      then (let h = (i + j) div 2
            in if \<not> f h then sort_Search_loop f (h + 1) j else sort_Search_loop f i h)
      else i)"
  by pat_completeness auto
termination
  by (relation "measure (\<lambda>(f, i, j). j - i)") auto

declare sort_Search_loop.simps [simp del]

definition sort_Search :: "nat \<Rightarrow> (nat \<Rightarrow> bool) \<Rightarrow> nat" where
  "sort_Search n f = sort_Search_loop f 0 n"

section \<open>Validators and the store they live in\<close>

text \<open>
  Modelled from the spec: the \<open>Validator\<close> struct and its \<open>Copy\<close> and \<open>CompareAccum\<close>
  methods are declared in \<open>validator.go\<close>, which is not among the sources. The spec (section 3)
  gives a validator an address (a byte string compared lexicographically), a public key
  handle, an integer voting power and the mutable integer accum; these are the four fields
  \<open>validator_set.go\<close> reads and writes.
\<close>

record Validator =
  Address :: bytes
  PubKey :: bytes
  VotingPower :: def_INT
  Accum :: def_INT

text \<open>
  A \<open>ValidatorSet\<close> holds pointers: \<open>Validators []*Validator\<close> and the cached
  \<open>proposer *Validator\<close>, and \<open>IncrementAccum\<close> writes through them. The model keeps the
  validator objects in a store, a list indexed by reference; \<open>*p\<close> is \<open>st ! p\<close>, a write
  through \<open>p\<close> is \<open>st[p := v]\<close>, and an allocation appends to the store. A nil pointer is
  \<open>None\<close>. Go has no dangling pointers: a state is well formed when every reference it holds
  is below the length of the store.
\<close>

type_synonym ref = nat
type_synonym store = "Validator list"

definition alloc :: "store \<Rightarrow> Validator \<Rightarrow> store \<times> ref" where
  "alloc st v = (st @ [v], length st)"

text \<open>
  Modelled from the spec: \<open>Validator.Copy\<close> (not among the sources) yields an independent
  copy of the validator: a new object with the same field values.
\<close>

definition Validator_Copy :: "store \<Rightarrow> ref \<Rightarrow> store \<times> ref" where
  "Validator_Copy st p = alloc st (st ! p)"

text \<open>
  Modelled from the spec: \<open>Validator.CompareAccum\<close> (not among the sources) is the tie-break
  comparator of section 4.3: the validator of greater accum, and of two with equal accum the
  one with the smaller address. A nil receiver yields the other validator, as the scan of
  \<open>Proposer\<close> starts from nil. For two validators equal in accum and address the spec says
  nothing; the model keeps the receiver.
\<close>

definition CompareAccum :: "store \<Rightarrow> ref option \<Rightarrow> ref \<Rightarrow> ref" where
  "CompareAccum st v other =
     (case v of
        None \<Rightarrow> other
      | Some p \<Rightarrow>
          if Accum (st ! p) > Accum (st ! other) then p
          else if Accum (st ! p) < Accum (st ! other) then other
          else if bytes_Compare (Address (st ! p)) (Address (st ! other)) < 0 then p
          else if bytes_Compare (Address (st ! p)) (Address (st ! other)) > 0 then other
          else p)"

record ValidatorSet =
  Validators :: "ref list"
  proposer :: "ref option"
  totalVotingPower :: def_INT

text \<open>
  Modelled from the spec: the vote and block identifier types (\<open>pbtypes\<close>) are declared
  outside the sources. Section 6 of the spec: a vote type is prevote, precommit or another
  one; a block identifier is a hash and a parts header, compared by \<open>Equals\<close>; a vote
  carries height, round, type and block identifier (its data) and a signature.
\<close>

datatype VoteType = VoteType_Prevote | VoteType_Precommit | VoteType_Other nat

datatype BlockID = MkBlockID bytes bytes

record VoteData =
  Data_Height :: def_INT
  Data_Round :: def_INT
  Data_Type :: VoteType
  Data_BlockID :: BlockID

record Vote =
  Data :: VoteData
  Signature :: bytes

text \<open>
  The errors of \<open>VerifyCommit\<close>, one constructor for each \<open>fmt.Errorf\<close> of the source
  with the values it prints, and the two run-time panics the model can reach: the type
  assertion on a nil \<open>Peek()\<close> in \<open>IncrementAccum\<close> and an index out of range in
  \<open>GetByIndex\<close>.
\<close>

datatype error =
    Err_WrongSetSize nat nat
  | Err_WrongHeight def_INT def_INT
  | Err_WrongRound def_INT def_INT
  | Err_NotPrecommit nat
  | Err_InvalidSignature Vote
  | Err_InsufficientVotingPower def_INT def_INT
  | Panic_NilPeek
  | Panic_IndexOutOfRange

section \<open>The priority queue\<close>

text \<open>
  \<open>accumComparable\<close> is the key of the queue: the accum as an \<open>int64\<close>, and nothing else.
  Its \<open>Less\<close> is \<open>int64(ac) > int64(o)\<close>.
\<close>

definition accumComparable :: "def_INT \<Rightarrow> def_INT" where
  "accumComparable a = a"

definition accumComparable_Less :: "def_INT \<Rightarrow> def_INT \<Rightarrow> bool" where
  "accumComparable_Less ac o' = (ac > o')"

text \<open>
  Modelled from the spec: the \<open>Heap\<close> of \<open>module/lib/go-common\<close> (\<open>NewHeap\<close>, \<open>Push\<close>,
  \<open>Peek\<close>, \<open>Update\<close>) is not among the sources. Section 4.2 of the spec: a priority queue over
  opaque keyed entries; \<open>push(entry, key)\<close> inserts; \<open>peekMax()\<close> returns, without
  removing it, the entry whose key compares greatest (the first under \<open>Less\<close>) and fails if
  the queue is empty; \<open>updateKey(entry, newKey)\<close> changes the key of the entry and keeps
  the entry. The model is the list of the entries with their keys, in the order of the
  pushes. Among entries whose keys tie the spec does not say which one \<open>peekMax\<close> returns;
  the model returns the one pushed first.
\<close>

type_synonym Heap = "(ref \<times> def_INT) list"

definition NewHeap :: Heap where
  "NewHeap = []"

definition Heap_Push :: "Heap \<Rightarrow> ref \<Rightarrow> def_INT \<Rightarrow> Heap" where
  "Heap_Push h v k = h @ [(v, k)]"

fun peek_from :: "(ref \<times> def_INT) \<Rightarrow> Heap \<Rightarrow> (ref \<times> def_INT)" where
  "peek_from best [] = best"
| "peek_from best (y # ys) =
     peek_from (if accumComparable_Less (snd y) (snd best) then y else best) ys"

definition Heap_Peek :: "Heap \<Rightarrow> ref option" where
  "Heap_Peek h = (case h of [] \<Rightarrow> None | x # xs \<Rightarrow> Some (fst (peek_from x xs)))"

definition Heap_Update :: "Heap \<Rightarrow> ref \<Rightarrow> def_INT \<Rightarrow> Heap" where
  "Heap_Update h v k = map (\<lambda>(v', k'). if v' = v then (v', k) else (v', k')) h"

section \<open>The validator set\<close>

text \<open>
  \<open>sort.Sort(ValidatorsByAddress(validators))\<close>: the references are sorted by the address
  of the validators they point to, \<open>Less\<close> being \<open>bytes.Compare(..) == -1\<close>. The result of
  Go's \<open>sort.Sort\<close> is a permutation of its input that is sorted under \<open>Less\<close>; it is not
  stable, so the order it leaves among equal addresses is not fixed. The model sorts by
  insertion.
\<close>

definition ValidatorsByAddress_Less :: "store \<Rightarrow> ref \<Rightarrow> ref \<Rightarrow> bool" where
  "ValidatorsByAddress_Less st i j = (bytes_Compare (Address (st ! i)) (Address (st ! j)) = - 1)"

definition sort_ValidatorsByAddress :: "store \<Rightarrow> ref list \<Rightarrow> ref list" where
  "sort_ValidatorsByAddress st ps = sort_key (\<lambda>p. Address (st ! p)) ps"

text \<open>
  \<open>genValidatorSet\<close>: every validator of the argument is copied into a new object, the
  copies are sorted by address, and both caches start empty (nil and 0). The argument is
  given by the values of the validators it points to.
\<close>

fun copy_vals :: "store \<Rightarrow> Validator list \<Rightarrow> store \<times> ref list" where
  "copy_vals st [] = (st, [])"
| "copy_vals st (v # vals) =
     (let (st1, p) = alloc st v;
          (st2, ps) = copy_vals st1 vals
      in (st2, p # ps))"

definition genValidatorSet :: "store \<Rightarrow> Validator list \<Rightarrow> store \<times> ValidatorSet" where
  "genValidatorSet st vals =
     (let (st1, validators) = copy_vals st vals
      in (st1, \<lparr>Validators = sort_ValidatorsByAddress st1 validators,
                proposer = None, totalVotingPower = 0\<rparr>))"

text \<open>
  \<open>TotalVotingPower\<close>: the cached sum, recomputed into the cache when the cache is 0.
\<close>

fun sum_VotingPower :: "store \<Rightarrow> ref list \<Rightarrow> def_INT \<Rightarrow> def_INT" where
  "sum_VotingPower st [] acc = acc"
| "sum_VotingPower st (p # ps) acc =
     sum_VotingPower st ps (wrap64 (acc + VotingPower (st ! p)))"

definition TotalVotingPower :: "store \<Rightarrow> ValidatorSet \<Rightarrow> def_INT \<times> ValidatorSet" where
  "TotalVotingPower st vs =
     (if totalVotingPower vs = 0
      then (let t = sum_VotingPower st (Validators vs) (totalVotingPower vs)
            in (t, vs\<lparr>totalVotingPower := t\<rparr>))
      else (totalVotingPower vs, vs))"

text \<open>
  \<open>IncrementAccum\<close>. The first loop adds \<open>VotingPower * times\<close> to the accum of every
  validator, in place, and pushes it with its new accum as key. The second loop runs
  \<open>int(times)\<close> times: it peeks the queue (the type assertion on a nil peek panics), records
  the peeked validator as the proposer when \<open>i == deTime\<close>, subtracts \<open>TotalVotingPower()\<close>
  from its accum in place and updates its key. \<open>int\<close> is taken to be 64 bits wide.
\<close>

fun push_all :: "def_INT \<Rightarrow> ref list \<Rightarrow> store \<Rightarrow> Heap \<Rightarrow> store \<times> Heap" where
  "push_all times' [] st h = (st, h)"
| "push_all times' (p # ps) st h =
     (let val = st ! p;
          a = wrap64 (Accum val + wrap64 (VotingPower val * times'));
          st1 = st[p := val\<lparr>Accum := a\<rparr>]
      in push_all times' ps st1 (Heap_Push h p (accumComparable a)))"

fun decrement_loop ::
  "nat \<Rightarrow> def_INT \<Rightarrow> def_INT \<Rightarrow> store \<Rightarrow> ValidatorSet \<Rightarrow> Heap \<Rightarrow> error + (store \<times> ValidatorSet)" where
  "decrement_loop 0 i deTime st vs h = Inr (st, vs)"
| "decrement_loop (Suc n) i deTime st vs h =
     (case Heap_Peek h of
        None \<Rightarrow> Inl Panic_NilPeek
      | Some mostest \<Rightarrow>
          (let vs1 = (if i = deTime then vs\<lparr>proposer := Some mostest\<rparr> else vs);
               (total, vs2) = TotalVotingPower st vs1;
               a = wrap64 (Accum (st ! mostest) - total);
               st1 = st[mostest := (st ! mostest)\<lparr>Accum := a\<rparr>]
           in decrement_loop n (i + 1) deTime st1 vs2
                (Heap_Update h mostest (accumComparable a))))"

definition IncrementAccum ::
  "store \<Rightarrow> ValidatorSet \<Rightarrow> def_INT \<Rightarrow> error + (store \<times> ValidatorSet)" where
  "IncrementAccum st vs times' =
     (let (st1, validatorsHeap) = push_all times' (Validators vs) st NewHeap;
          deTime = wrap64 (times' - 1)
      in decrement_loop (nat times') 0 deTime st1 vs validatorsHeap)"

text \<open>
  \<open>NewValidatorSet\<close>: the argument slice is nil (\<open>None\<close>) or a list of validators; the
  rotation step is taken only when it is not nil.
\<close>

definition NewValidatorSet ::
  "store \<Rightarrow> Validator list option \<Rightarrow> error + (store \<times> ValidatorSet)" where
  "NewValidatorSet st vals =
     (let (st1, vs) = genValidatorSet st (case vals of None \<Rightarrow> [] | Some l \<Rightarrow> l)
      in if vals \<noteq> None then IncrementAccum st1 vs 1 else Inr (st1, vs))"

text \<open>
  \<open>Proposer\<close>: nil for a set without validators; otherwise a copy of the validator the
  cached pointer points to, the cache being filled by a scan with \<open>CompareAccum\<close> when it
  is nil. The copy is returned as a value.
\<close>

fun Proposer_scan :: "store \<Rightarrow> ref list \<Rightarrow> ref option \<Rightarrow> ref option" where
  "Proposer_scan st [] pr = pr"
| "Proposer_scan st (val # vals) pr = Proposer_scan st vals (Some (CompareAccum st pr val))"

definition Proposer :: "store \<Rightarrow> ValidatorSet \<Rightarrow> Validator option \<times> ValidatorSet" where
  "Proposer st vs =
     (if length (Validators vs) = 0 then (None, vs)
      else (let vs1 = (if proposer vs = None
                       then vs\<lparr>proposer := Proposer_scan st (Validators vs) (proposer vs)\<rparr>
                       else vs)
            in (map_option (\<lambda>p. st ! p) (proposer vs1), vs1)))"


text \<open>
  \<open>Size\<close>, \<open>GetByIndex\<close> (an index out of range is a run-time panic: \<open>None\<close>),
  \<open>HasAddress\<close> and \<open>GetByAddress\<close> (the index and a copy of the validator, or 0 and
  nil). Copies handed to the caller are values.
\<close>

definition Size :: "ValidatorSet \<Rightarrow> nat" where
  "Size vs = length (Validators vs)"

definition GetByIndex :: "store \<Rightarrow> ValidatorSet \<Rightarrow> nat \<Rightarrow> (bytes \<times> Validator) option" where
  "GetByIndex st vs index =
     (if index < length (Validators vs)
      then (let val = st ! (Validators vs ! index) in Some (Address val, val))
      else None)"

definition search_address :: "store \<Rightarrow> ValidatorSet \<Rightarrow> bytes \<Rightarrow> nat" where
  "search_address st vs address =
     sort_Search (length (Validators vs))
       (\<lambda>i. bytes_Compare address (Address (st ! (Validators vs ! i))) \<le> 0)"

definition HasAddress :: "store \<Rightarrow> ValidatorSet \<Rightarrow> bytes \<Rightarrow> bool" where
  "HasAddress st vs address =
     (let idx = search_address st vs address
      in idx \<noteq> length (Validators vs)
         \<and> bytes_Compare (Address (st ! (Validators vs ! idx))) address = 0)"

definition GetByAddress :: "store \<Rightarrow> ValidatorSet \<Rightarrow> bytes \<Rightarrow> nat \<times> Validator option" where
  "GetByAddress st vs address =
     (let idx = search_address st vs address
      in if idx \<noteq> length (Validators vs)
            \<and> bytes_Compare (Address (st ! (Validators vs ! idx))) address = 0
         then (idx, Some (st ! (Validators vs ! idx)))
         else (0, None))"

text \<open>
  \<open>Add\<close>, \<open>Update\<close> and \<open>Remove\<close>. The validator given to \<open>Add\<close> and \<open>Update\<close> is
  copied into a new object; each of the three clears both caches when it changes the set.
  \<open>Remove\<close> returns the pointer it removed.
\<close>

definition Add :: "store \<Rightarrow> ValidatorSet \<Rightarrow> Validator \<Rightarrow> (store \<times> ValidatorSet) \<times> bool" where
  "Add st vs val0 =
     (let (st1, val) = alloc st val0;
          idx = search_address st1 vs (Address (st1 ! val))
      in if idx = length (Validators vs)
         then ((st1, vs\<lparr>Validators := Validators vs @ [val],
                        proposer := None, totalVotingPower := 0\<rparr>), True)
         else if bytes_Compare (Address (st1 ! (Validators vs ! idx))) (Address (st1 ! val)) = 0
         then ((st1, vs), False)
         else ((st1, vs\<lparr>Validators := take idx (Validators vs) @ [val] @ drop idx (Validators vs),
                        proposer := None, totalVotingPower := 0\<rparr>), True))"

definition Update :: "store \<Rightarrow> ValidatorSet \<Rightarrow> Validator \<Rightarrow> (store \<times> ValidatorSet) \<times> bool" where
  "Update st vs val =
     (let (index, sameVal) = GetByAddress st vs (Address val)
      in if sameVal = None then ((st, vs), False)
         else (let (st1, p) = alloc st val
               in ((st1, vs\<lparr>Validators := (Validators vs)[index := p],
                            proposer := None, totalVotingPower := 0\<rparr>), True)))"

definition Remove ::
  "store \<Rightarrow> ValidatorSet \<Rightarrow> bytes \<Rightarrow> (store \<times> ValidatorSet) \<times> (ref option \<times> bool)" where
  "Remove st vs address =
     (let idx = search_address st vs address
      in if idx = length (Validators vs)
            \<or> bytes_Compare (Address (st ! (Validators vs ! idx))) address \<noteq> 0
         then ((st, vs), (None, False))
         else (let removedVal = Validators vs ! idx;
                   newValidators = take idx (Validators vs);
                   newValidators = (if idx + 1 < length (Validators vs)
                                    then newValidators @ drop (idx + 1) (Validators vs)
                                    else newValidators)
               in ((st, vs\<lparr>Validators := newValidators,
                           proposer := None, totalVotingPower := 0\<rparr>),
                   (Some removedVal, True))))"

text \<open>
  \<open>Copy\<close>: a new object for every validator; the proposer pointer and the cached total
  are carried over as they are.
\<close>

fun copy_refs :: "store \<Rightarrow> ref list \<Rightarrow> store \<times> ref list" where
  "copy_refs st [] = (st, [])"
| "copy_refs st (val # vals) =
     (let (st1, p) = Validator_Copy st val;
          (st2, ps) = copy_refs st1 vals
      in (st2, p # ps))"

definition Copy :: "store \<Rightarrow> ValidatorSet \<Rightarrow> store \<times> ValidatorSet" where
  "Copy st vs =
     (let (st1, validators) = copy_refs st (Validators vs)
      in (st1, \<lparr>Validators = validators, proposer = proposer vs,
                totalVotingPower = totalVotingPower vs\<rparr>))"

text \<open>
  \<open>Hash\<close>: nil for a set without validators, otherwise the Merkle hash of the validators
  in the order of the set. \<open>merkle.SimpleHashFromHashables\<close> and the hash of one validator
  are outside this file: the first argument \<open>SimpleHash\<close> stands for them.
\<close>

definition Hash :: "(Validator list \<Rightarrow> bytes) \<Rightarrow> store \<Rightarrow> ValidatorSet \<Rightarrow> bytes option" where
  "Hash SimpleHash st vs =
     (if length (Validators vs) = 0 then None
      else Some (SimpleHash (map (\<lambda>val. st ! val) (Validators vs))))"

text \<open>
  \<open>JSONBytes\<close> and \<open>ValSetFromJsonBytes\<close>. The JSON codec of the Go library and of the
  validator's fields is outside this file: \<open>Marshal\<close> and \<open>Unmarshal\<close> stand for
  \<open>json.Marshal\<close> and \<open>json.Unmarshal\<close> on a list of validators, \<open>None\<close> being their
  error. \<open>ValSetFromJsonBytes\<close> returns nil when the bytes do not parse.
\<close>

definition JSONBytes ::
  "(Validator list \<Rightarrow> bytes option) \<Rightarrow> store \<Rightarrow> ValidatorSet \<Rightarrow> bytes option" where
  "JSONBytes Marshal st vs = Marshal (map (\<lambda>val. st ! val) (Validators vs))"

definition ValSetFromJsonBytes ::
  "(bytes \<Rightarrow> Validator list option) \<Rightarrow> store \<Rightarrow> bytes \<Rightarrow> (store \<times> ValidatorSet) option" where
  "ValSetFromJsonBytes Unmarshal st data =
     (case Unmarshal data of
        None \<Rightarrow> None
      | Some vset \<Rightarrow> Some (genValidatorSet st vset))"

section \<open>Commit verification\<close>

text \<open>
  Modelled from the spec: \<open>CommitCache\<close> and the vote types are declared outside the
  sources. Section 3 of the spec: a commit has a height, a round and, per validator index,
  an optional precommit; a present precommit carries height, round, a vote type, a block
  identifier and a signature. A slot that does not \<open>Exist()\<close> is \<open>None\<close>.
\<close>

record CommitCache =
  Commit_Height :: def_INT
  Commit_Round :: def_INT
  Precommits :: "Vote option list"

definition BlockID_Equals :: "BlockID \<Rightarrow> BlockID \<Rightarrow> bool" where
  "BlockID_Equals a b = (a = b)"

text \<open>
  The loop of \<open>VerifyCommit\<close> over the slots, from index \<open>idx\<close> on with the tally so far.
  \<open>SignBytes\<close> and \<open>VerifyBytes\<close> stand for the sign-bytes encoding and the signature
  check of the public key, both outside this file.
\<close>

fun tally_precommits ::
  "(string \<Rightarrow> VoteData \<Rightarrow> bytes) \<Rightarrow> (bytes \<Rightarrow> bytes \<Rightarrow> bytes \<Rightarrow> bool) \<Rightarrow>
   store \<Rightarrow> ValidatorSet \<Rightarrow> string \<Rightarrow> BlockID \<Rightarrow> def_INT \<Rightarrow> def_INT \<Rightarrow>
   nat \<Rightarrow> Vote option list \<Rightarrow> def_INT \<Rightarrow> error + def_INT" where
  "tally_precommits SignBytes VerifyBytes st vs chainID blockID height round idx []
     talliedVotingPower = Inr talliedVotingPower"
| "tally_precommits SignBytes VerifyBytes st vs chainID blockID height round idx
     (precommit # rest) talliedVotingPower =
     (case precommit of
        None \<Rightarrow>
          tally_precommits SignBytes VerifyBytes st vs chainID blockID height round
            (Suc idx) rest talliedVotingPower
      | Some vote \<Rightarrow>
          (let pdata = Data vote
           in if Data_Height pdata \<noteq> height
              then Inl (Err_WrongHeight height (Data_Height pdata))
              else if Data_Round pdata \<noteq> round
              then Inl (Err_WrongRound round (Data_Round pdata))
              else if Data_Type pdata \<noteq> VoteType_Precommit
              then Inl (Err_NotPrecommit idx)
              else (case GetByIndex st vs idx of
                      None \<Rightarrow> Inl Panic_IndexOutOfRange
                    | Some (address, val) \<Rightarrow>
                        if \<not> VerifyBytes (PubKey val) (SignBytes chainID pdata) (Signature vote)
                        then Inl (Err_InvalidSignature vote)
                        else if \<not> BlockID_Equals blockID (Data_BlockID pdata)
                        then tally_precommits SignBytes VerifyBytes st vs chainID blockID
                               height round (Suc idx) rest talliedVotingPower
                        else tally_precommits SignBytes VerifyBytes st vs chainID blockID
                               height round (Suc idx) rest
                               (wrap64 (talliedVotingPower + VotingPower val)))))"

text \<open>
  \<open>VerifyCommit\<close> returns its error (\<open>None\<close> for nil) and the set, whose cached total the
  final call of \<open>TotalVotingPower\<close> may have filled.
\<close>

definition VerifyCommit ::
  "(string \<Rightarrow> VoteData \<Rightarrow> bytes) \<Rightarrow> (bytes \<Rightarrow> bytes \<Rightarrow> bytes \<Rightarrow> bool) \<Rightarrow>
   store \<Rightarrow> ValidatorSet \<Rightarrow> string \<Rightarrow> BlockID \<Rightarrow> def_INT \<Rightarrow> CommitCache \<Rightarrow>
   error option \<times> ValidatorSet" where
  "VerifyCommit SignBytes VerifyBytes st vs chainID blockID height commit =
     (if Size vs \<noteq> length (Precommits commit)
      then (Some (Err_WrongSetSize (Size vs) (length (Precommits commit))), vs)
      else if height \<noteq> Commit_Height commit
      then (Some (Err_WrongHeight height (Commit_Height commit)), vs)
      else (case tally_precommits SignBytes VerifyBytes st vs chainID blockID height
                   (Commit_Round commit) 0 (Precommits commit) 0 of
              Inl e \<Rightarrow> (Some e, vs)
            | Inr talliedVotingPower \<Rightarrow>
                (let (total, vs1) = TotalVotingPower st vs
                 in if talliedVotingPower > go_div (wrap64 (total * 2)) 3
                    then (None, vs1)
                    else (let (total2, vs2) = TotalVotingPower st vs1
                          in (Some (Err_InsufficientVotingPower talliedVotingPower
                                      (wrap64 (go_div (wrap64 (total2 * 2)) 3 + 1))), vs2)))))"


section \<open>Predicates and values used in the statements\<close>

text \<open>
  A state is a store together with a set. \<open>wf_refs\<close>: every pointer of the set points into
  the store. \<open>members\<close> are the validators of the set in its order, \<open>addresses\<close> their
  addresses; \<open>sorted_by_address\<close> is the structural invariant, addresses strictly
  ascending (so also without duplicates). \<open>cache_ok\<close>: the cached total is empty (0) or the
  sum \<open>TotalVotingPower\<close> computes. \<open>frame_of\<close> is a validator without its accum.
\<close>

definition wf_refs :: "store \<Rightarrow> ValidatorSet \<Rightarrow> bool" where
  "wf_refs st vs = (\<forall>p \<in> set (Validators vs). p < length st)"

definition members :: "store \<Rightarrow> ValidatorSet \<Rightarrow> Validator list" where
  "members st vs = map (\<lambda>val. st ! val) (Validators vs)"

definition addresses :: "store \<Rightarrow> ValidatorSet \<Rightarrow> bytes list" where
  "addresses st vs = map (\<lambda>val. Address (st ! val)) (Validators vs)"

definition sorted_by_address :: "store \<Rightarrow> ValidatorSet \<Rightarrow> bool" where
  "sorted_by_address st vs = sorted_wrt (<) (addresses st vs)"

definition cache_ok :: "store \<Rightarrow> ValidatorSet \<Rightarrow> bool" where
  "cache_ok st vs =
     (totalVotingPower vs = 0 \<or> totalVotingPower vs = sum_VotingPower st (Validators vs) 0)"

definition frame_of :: "Validator \<Rightarrow> bytes \<times> bytes \<times> def_INT" where
  "frame_of val = (Address val, PubKey val, VotingPower val)"

text \<open>
  A call of one of the three mutators, and a sequence of calls run from a state.
\<close>

datatype call = Call_Add Validator | Call_Update Validator | Call_Remove bytes

fun run_call :: "store \<times> ValidatorSet \<Rightarrow> call \<Rightarrow> store \<times> ValidatorSet" where
  "run_call (st, vs) (Call_Add val) = fst (Add st vs val)"
| "run_call (st, vs) (Call_Update val) = fst (Update st vs val)"
| "run_call (st, vs) (Call_Remove address) = fst (Remove st vs address)"

definition run_calls :: "store \<times> ValidatorSet \<Rightarrow> call list \<Rightarrow> store \<times> ValidatorSet" where
  "run_calls s calls = foldl run_call s calls"

definition state_ok :: "store \<times> ValidatorSet \<Rightarrow> bool" where
  "state_ok s = (wf_refs (fst s) (snd s) \<and> sorted_by_address (fst s) (snd s))"

text \<open>
  The checks \<open>VerifyCommit\<close> makes on the precommit in slot \<open>idx\<close> before it looks at
  the block: height, round, vote type, and the signature against the public key of the
  validator at \<open>idx\<close>. \<open>precommits_pass\<close>: every present precommit from \<open>idx\<close> on passes
  them. \<open>commit_checks_pass\<close>: the commit has as many slots as the set has validators, its
  height is the one asked for, and every present precommit passes.
\<close>

definition signature_valid ::
  "(string \<Rightarrow> VoteData \<Rightarrow> bytes) \<Rightarrow> (bytes \<Rightarrow> bytes \<Rightarrow> bytes \<Rightarrow> bool) \<Rightarrow>
   store \<Rightarrow> ValidatorSet \<Rightarrow> string \<Rightarrow> nat \<Rightarrow> Vote \<Rightarrow> bool" where
  "signature_valid SignBytes VerifyBytes st vs chainID idx vote =
     VerifyBytes (PubKey (st ! (Validators vs ! idx))) (SignBytes chainID (Data vote)) (Signature vote)"

definition vote_checks ::
  "(string \<Rightarrow> VoteData \<Rightarrow> bytes) \<Rightarrow> (bytes \<Rightarrow> bytes \<Rightarrow> bytes \<Rightarrow> bool) \<Rightarrow>
   store \<Rightarrow> ValidatorSet \<Rightarrow> string \<Rightarrow> def_INT \<Rightarrow> def_INT \<Rightarrow> nat \<Rightarrow> Vote \<Rightarrow> bool" where
  "vote_checks SignBytes VerifyBytes st vs chainID height round idx vote =
     (Data_Height (Data vote) = height \<and> Data_Round (Data vote) = round
      \<and> Data_Type (Data vote) = VoteType_Precommit
      \<and> idx < length (Validators vs)
      \<and> signature_valid SignBytes VerifyBytes st vs chainID idx vote)"

fun precommits_pass ::
  "(string \<Rightarrow> VoteData \<Rightarrow> bytes) \<Rightarrow> (bytes \<Rightarrow> bytes \<Rightarrow> bytes \<Rightarrow> bool) \<Rightarrow>
   store \<Rightarrow> ValidatorSet \<Rightarrow> string \<Rightarrow> def_INT \<Rightarrow> def_INT \<Rightarrow> nat \<Rightarrow> Vote option list \<Rightarrow> bool" where
  "precommits_pass SignBytes VerifyBytes st vs chainID height round idx [] = True"
| "precommits_pass SignBytes VerifyBytes st vs chainID height round idx (None # rest) =
     precommits_pass SignBytes VerifyBytes st vs chainID height round (Suc idx) rest"
| "precommits_pass SignBytes VerifyBytes st vs chainID height round idx (Some vote # rest) =
     (vote_checks SignBytes VerifyBytes st vs chainID height round idx vote
      \<and> precommits_pass SignBytes VerifyBytes st vs chainID height round (Suc idx) rest)"

definition commit_checks_pass ::
  "(string \<Rightarrow> VoteData \<Rightarrow> bytes) \<Rightarrow> (bytes \<Rightarrow> bytes \<Rightarrow> bytes \<Rightarrow> bool) \<Rightarrow>
   store \<Rightarrow> ValidatorSet \<Rightarrow> string \<Rightarrow> def_INT \<Rightarrow> CommitCache \<Rightarrow> bool" where
  "commit_checks_pass SignBytes VerifyBytes st vs chainID height commit =
     (Size vs = length (Precommits commit) \<and> height = Commit_Height commit
      \<and> precommits_pass SignBytes VerifyBytes st vs chainID height (Commit_Round commit) 0
           (Precommits commit))"

text \<open>
  In the spec's words: the tally is the voting power of the present, validly signed
  precommits for the target block, and the total is the sum of the voting powers of the
  set. Both are sums of integers without wrap-around.
\<close>

fun spec_tally ::
  "(string \<Rightarrow> VoteData \<Rightarrow> bytes) \<Rightarrow> (bytes \<Rightarrow> bytes \<Rightarrow> bytes \<Rightarrow> bool) \<Rightarrow>
   store \<Rightarrow> ValidatorSet \<Rightarrow> string \<Rightarrow> BlockID \<Rightarrow> nat \<Rightarrow> Vote option list \<Rightarrow> int" where
  "spec_tally SignBytes VerifyBytes st vs chainID blockID idx [] = 0"
| "spec_tally SignBytes VerifyBytes st vs chainID blockID idx (None # rest) =
     spec_tally SignBytes VerifyBytes st vs chainID blockID (Suc idx) rest"
| "spec_tally SignBytes VerifyBytes st vs chainID blockID idx (Some vote # rest) =
     (if signature_valid SignBytes VerifyBytes st vs chainID idx vote
         \<and> Data_BlockID (Data vote) = blockID
      then VotingPower (st ! (Validators vs ! idx)) else 0)
     + spec_tally SignBytes VerifyBytes st vs chainID blockID (Suc idx) rest"

definition total_power :: "store \<Rightarrow> ValidatorSet \<Rightarrow> int" where
  "total_power st vs = sum_list (map (\<lambda>val. VotingPower (st ! val)) (Validators vs))"

definition is_insufficient :: "error \<Rightarrow> bool" where
  "is_insufficient e = (case e of Err_InsufficientVotingPower a b \<Rightarrow> True | _ \<Rightarrow> False)"



text \<open>Concrete validators, sets and commits for the examples.\<close>

definition example_A :: "bytes \<Rightarrow> bytes \<Rightarrow> Validator" where
  "example_A address key = \<lparr>Address = address, PubKey = key, VotingPower = 2, Accum = 0\<rparr>"

definition example_B :: "bytes \<Rightarrow> bytes \<Rightarrow> Validator" where
  "example_B address key = \<lparr>Address = address, PubKey = key, VotingPower = 1, Accum = 0\<rparr>"

definition tie_first :: Validator where
  "tie_first = \<lparr>Address = [1], PubKey = [11], VotingPower = 1, Accum = 0\<rparr>"

definition tie_second :: Validator where
  "tie_second = \<lparr>Address = [2], PubKey = [12], VotingPower = 1, Accum = 0\<rparr>"

definition tie_third :: Validator where
  "tie_third = \<lparr>Address = [3], PubKey = [13], VotingPower = 1, Accum = 1\<rparr>"

definition dup_first :: Validator where
  "dup_first = \<lparr>Address = [1], PubKey = [10], VotingPower = 1, Accum = 0\<rparr>"

definition dup_second :: Validator where
  "dup_second = \<lparr>Address = [1], PubKey = [20], VotingPower = 5, Accum = 0\<rparr>"

definition example_SignBytes :: "string \<Rightarrow> VoteData \<Rightarrow> bytes" where
  "example_SignBytes chainID pdata = []"

definition example_VerifyBytes :: "bytes \<Rightarrow> bytes \<Rightarrow> bytes \<Rightarrow> bool" where
  "example_VerifyBytes key msg sig = (sig = key)"

definition four_store :: store where
  "four_store =
     [\<lparr>Address = [1], PubKey = [11], VotingPower = 1, Accum = 0\<rparr>,
      \<lparr>Address = [2], PubKey = [12], VotingPower = 1, Accum = 0\<rparr>,
      \<lparr>Address = [3], PubKey = [13], VotingPower = 1, Accum = 0\<rparr>,
      \<lparr>Address = [4], PubKey = [14], VotingPower = 1, Accum = 0\<rparr>]"

definition four_set :: ValidatorSet where
  "four_set = \<lparr>Validators = [0, 1, 2, 3], proposer = None, totalVotingPower = 0\<rparr>"

definition example_vote :: "bytes \<Rightarrow> BlockID \<Rightarrow> Vote" where
  "example_vote sig block =
     \<lparr>Data = \<lparr>Data_Height = 5, Data_Round = 0, Data_Type = VoteType_Precommit,
               Data_BlockID = block\<rparr>,
      Signature = sig\<rparr>"

definition target_block :: BlockID where
  "target_block = MkBlockID [7] [8]"

definition other_block :: BlockID where
  "other_block = MkBlockID [9] [8]"

definition commit_of :: "Vote option list \<Rightarrow> CommitCache" where
  "commit_of slots = \<lparr>Commit_Height = 5, Commit_Round = 0, Precommits = slots\<rparr>"

definition toy_Marshal :: "Validator list \<Rightarrow> bytes option" where
  "toy_Marshal vals = (if vals = [tie_first, tie_second] then Some [0] else None)"

definition toy_Unmarshal :: "bytes \<Rightarrow> Validator list option" where
  "toy_Unmarshal data = (if data = [0] then Some [tie_first, tie_second] else None)"

definition example_SimpleHash :: "Validator list \<Rightarrow> bytes" where
  "example_SimpleHash vals = concat (map Address vals)"

section \<open>Arithmetic and library functions\<close>

lemma wrap64_id: "- (2 ^ 63) \<le> x \<Longrightarrow> x < 2 ^ 63 \<Longrightarrow> wrap64 x = x"
  by (simp add: wrap64_def)

lemma wrap64_numeral_simps:
  "wrap64 0 = 0" "wrap64 1 = 1" "wrap64 2 = 2" "wrap64 3 = 3" "wrap64 (- 1) = - 1"
  by (simp_all add: wrap64_def)

lemma go_div_nonneg: "0 \<le> a \<Longrightarrow> go_div a 3 = a div 3"
  by (cases "a = 0") (simp_all add: go_div_def)

lemma bytes_Compare_le [simp]: "(bytes_Compare a b \<le> 0) = (a \<le> b)"
  by (auto simp: bytes_Compare_def)

lemma bytes_Compare_eq [simp]: "(bytes_Compare a b = 0) = (a = b)"
  by (auto simp: bytes_Compare_def)

lemma BlockID_Equals_eq [simp]: "BlockID_Equals a b = (a = b)"
  by (simp add: BlockID_Equals_def)

lemma sort_Search_loop_least:
  assumes "i \<le> j" and "j \<le> n"
    and "\<forall>k<i. \<not> f k" and "\<forall>k. j \<le> k \<and> k < n \<longrightarrow> f k"
    and "\<forall>a b. a \<le> b \<and> b < n \<and> f a \<longrightarrow> f b"
  shows "sort_Search_loop f i j \<le> n
       \<and> (\<forall>k < sort_Search_loop f i j. \<not> f k)
       \<and> (\<forall>k. sort_Search_loop f i j \<le> k \<and> k < n \<longrightarrow> f k)"
  using assms
proof (induction f i j rule: sort_Search_loop.induct)
  case (1 f i j)
  show ?case
  proof (cases "i < j")
    case False
    then have "sort_Search_loop f i j = i"
      by (simp add: sort_Search_loop.simps [of f i j])
    moreover have "i = j" using False "1.prems"(1) by simp
    ultimately show ?thesis using "1.prems" by simp
  next
    case True
    define h where "h = (i + j) div 2"
    have hb: "i \<le> h" "h < j" using True by (simp_all add: h_def)
    show ?thesis
    proof (cases "f h")
      case False
      have eq: "sort_Search_loop f i j = sort_Search_loop f (h + 1) j"
        using True False by (simp add: sort_Search_loop.simps [of f i j] h_def Let_def)
      have below: "\<forall>k<h + 1. \<not> f k"
      proof (intro allI impI)
        fix k assume "k < h + 1"
        then have "k \<le> h" by simp
        moreover have "h < n" using hb "1.prems"(2) by simp
        ultimately show "\<not> f k" using False "1.prems"(5) by blast
      qed
      have "h + 1 \<le> j" using hb by simp
      note ih = "1.IH"(1) [OF True h_def False this "1.prems"(2) below "1.prems"(4) "1.prems"(5)]
      show ?thesis unfolding eq by (rule ih)
    next
      case fh: True
      have eq: "sort_Search_loop f i j = sort_Search_loop f i h"
        using True fh by (simp add: sort_Search_loop.simps [of f i j] h_def Let_def)
      have hn: "h \<le> n" using hb "1.prems"(2) by simp
      have above: "\<forall>k. h \<le> k \<and> k < n \<longrightarrow> f k"
        using fh "1.prems"(5) by blast
      have nfh: "\<not> \<not> f h" using fh by simp
      note ih = "1.IH"(2) [OF True h_def nfh hb(1) hn "1.prems"(3) above "1.prems"(5)]
      show ?thesis unfolding eq by (rule ih)
    qed
  qed
qed

section \<open>Lemmas about the validator set\<close>

lemma ValidatorsByAddress_Less_iff:
  "ValidatorsByAddress_Less st i j = (Address (st ! i) < Address (st ! j))"
  by (auto simp: ValidatorsByAddress_Less_def bytes_Compare_def)

lemma sort_ValidatorsByAddress_sorted:
  "sorted_wrt (\<lambda>i j. \<not> ValidatorsByAddress_Less st j i) (sort_ValidatorsByAddress st ps)"
proof -
  have "sorted (map (\<lambda>p. Address (st ! p)) (sort_key (\<lambda>p. Address (st ! p)) ps))"
    by (rule sorted_sort_key)
  then show ?thesis
    by (simp add: sort_ValidatorsByAddress_def ValidatorsByAddress_Less_iff sorted_map not_less)
qed

lemma sort_ValidatorsByAddress_mset:
  "mset (sort_ValidatorsByAddress st ps) = mset ps"
  by (simp add: sort_ValidatorsByAddress_def)

lemma length_addresses [simp]: "length (addresses st vs) = length (Validators vs)"
  by (simp add: addresses_def)

lemma nth_addresses:
  "k < length (Validators vs) \<Longrightarrow> addresses st vs ! k = Address (st ! (Validators vs ! k))"
  by (simp add: addresses_def)

lemma addresses_members: "addresses st vs = map Address (members st vs)"
  by (simp add: addresses_def members_def)

lemma search_address_least:
  assumes srt: "sorted_wrt (<) (addresses st vs)"
  shows "search_address st vs a \<le> length (Validators vs)
       \<and> (\<forall>k < search_address st vs a. addresses st vs ! k < a)
       \<and> (\<forall>k. search_address st vs a \<le> k \<and> k < length (Validators vs) \<longrightarrow> a \<le> addresses st vs ! k)"
proof -
  define n where "n = length (Validators vs)"
  define f where "f = (\<lambda>i. bytes_Compare a (Address (st ! (Validators vs ! i))) \<le> 0)"
  define r where "r = sort_Search_loop f 0 n"
  have fa: "f k = (a \<le> addresses st vs ! k)" if "k < n" for k
    using that by (simp add: f_def n_def nth_addresses)
  have mono: "\<forall>x y. x \<le> y \<and> y < n \<and> f x \<longrightarrow> f y"
  proof (intro allI impI)
    fix x y assume h: "x \<le> y \<and> y < n \<and> f x"
    then have xn: "x < n" and yn: "y < n" and fx: "f x" by simp_all
    have le: "addresses st vs ! x \<le> addresses st vs ! y"
    proof (cases "x = y")
      case True
      then show ?thesis by simp
    next
      case False
      with h have "x < y" by simp
      moreover have "y < length (addresses st vs)" using yn by (simp add: n_def)
      ultimately have "addresses st vs ! x < addresses st vs ! y"
        using srt by (rule sorted_wrt_nth_less [rotated])
      then show ?thesis by simp
    qed
    have "a \<le> addresses st vs ! x" using fx fa [OF xn] by simp
    with le have "a \<le> addresses st vs ! y" by simp
    then show "f y" using fa [OF yn] by simp
  qed
  have e1: "\<forall>k<0. \<not> f k" by simp
  have e2: "\<forall>k. n \<le> k \<and> k < n \<longrightarrow> f k" by auto
  have main: "r \<le> n \<and> (\<forall>k < r. \<not> f k) \<and> (\<forall>k. r \<le> k \<and> k < n \<longrightarrow> f k)"
    unfolding r_def by (rule sort_Search_loop_least [OF le0 order_refl e1 e2 mono])
  have req: "search_address st vs a = r"
    by (simp add: search_address_def sort_Search_def r_def f_def n_def)
  have lo: "addresses st vs ! k < a" if "k < r" for k
  proof -
    from that main have "k < n" and "\<not> f k" by auto
    then show ?thesis using fa [of k] by simp
  qed
  have hi: "a \<le> addresses st vs ! k" if "r \<le> k" and "k < n" for k
  proof -
    from that main have "f k" by blast
    then show ?thesis using fa [OF that(2)] by simp
  qed
  show ?thesis unfolding req using main lo hi by (simp add: n_def)
qed

lemma addresses_append_store:
  "wf_refs st vs \<Longrightarrow> addresses (st @ xs) vs = addresses st vs"
  by (simp add: addresses_def wf_refs_def nth_append)

lemma set_less_from_nth:
  "\<forall>k<m. xs ! k < (a::bytes) \<Longrightarrow> m \<le> length xs \<Longrightarrow> \<forall>x \<in> set (take m xs). x < a"
proof
  fix x assume h: "\<forall>k<m. xs ! k < a" and m: "m \<le> length xs" and x: "x \<in> set (take m xs)"
  from x obtain k where "k < length (take m xs)" and "take m xs ! k = x"
    by (auto simp: in_set_conv_nth)
  then have "k < m" and "xs ! k = x" using m by simp_all
  with h show "x < a" by auto
qed

lemma set_greater_from_nth:
  "\<forall>k. m \<le> k \<and> k < length xs \<longrightarrow> (a::bytes) < xs ! k \<Longrightarrow> \<forall>y \<in> set (drop m xs). a < y"
proof
  fix y assume h: "\<forall>k. m \<le> k \<and> k < length xs \<longrightarrow> a < xs ! k" and y: "y \<in> set (drop m xs)"
  from y obtain k where k: "k < length (drop m xs)" and "drop m xs ! k = y"
    by (auto simp: in_set_conv_nth)
  then have "m + k < length xs" and "xs ! (m + k) = y" by simp_all
  with h show "a < y" by auto
qed

lemma sorted_wrt_insert_at:
  fixes xs :: "bytes list"
  assumes srt: "sorted_wrt (<) xs" and m: "m \<le> length xs"
    and lo: "\<forall>k<m. xs ! k < a"
    and hi: "\<forall>k. m \<le> k \<and> k < length xs \<longrightarrow> a < xs ! k"
  shows "sorted_wrt (<) (take m xs @ [a] @ drop m xs)"
proof -
  have "sorted_wrt (<) (take m xs @ drop m xs)" using srt by simp
  then have parts: "sorted_wrt (<) (take m xs)" "sorted_wrt (<) (drop m xs)"
    "\<forall>x \<in> set (take m xs). \<forall>y \<in> set (drop m xs). x < y"
    unfolding sorted_wrt_append by simp_all
  have l: "\<forall>x \<in> set (take m xs). x < a" using lo m by (rule set_less_from_nth)
  have g: "\<forall>y \<in> set (drop m xs). a < y" using hi by (rule set_greater_from_nth)
  show ?thesis using parts l g by (simp add: sorted_wrt_append)
qed

lemma sorted_wrt_remove_at:
  fixes xs :: "bytes list"
  assumes srt: "sorted_wrt (<) xs"
  shows "sorted_wrt (<) (take m xs @ drop (Suc m) xs)"
proof (cases "m < length xs")
  case True
  then have "xs = take m xs @ xs ! m # drop (Suc m) xs" by (rule id_take_nth_drop)
  then have "sorted_wrt (<) (take m xs @ xs ! m # drop (Suc m) xs)" using srt by simp
  then show ?thesis by (auto simp: sorted_wrt_append)
next
  case False
  then show ?thesis using srt by simp
qed

lemma Add_preserves:
  assumes wf: "wf_refs st vs" and srt: "sorted_by_address st vs"
    and res: "Add st vs val = ((st', vs'), added)"
  shows "wf_refs st' vs' \<and> sorted_by_address st' vs'"
proof -
  define st1 where "st1 = st @ [val]"
  define p where "p = length st"
  define idx where "idx = search_address st1 vs (Address val)"
  have al: "alloc st val = (st1, p)" by (simp add: alloc_def st1_def p_def)
  have pv: "st1 ! p = val" by (simp add: st1_def p_def)
  have ad: "addresses st1 vs = addresses st vs"
    unfolding st1_def using wf by (rule addresses_append_store)
  have srt1: "sorted_wrt (<) (addresses st1 vs)" using srt by (simp add: ad sorted_by_address_def)
  have wf1: "wf_refs st1 vs" using wf by (auto simp: wf_refs_def st1_def)
  have pl: "p < length st1" by (simp add: st1_def p_def)
  from search_address_least [OF srt1, of "Address val"]
  have le: "idx \<le> length (Validators vs)"
    and lo: "\<forall>k<idx. addresses st1 vs ! k < Address val"
    and hi: "\<forall>k. idx \<le> k \<and> k < length (Validators vs) \<longrightarrow> Address val \<le> addresses st1 vs ! k"
    by (simp_all add: idx_def)
  consider (at_end) "idx = length (Validators vs)"
    | (same) "idx < length (Validators vs)" "addresses st1 vs ! idx = Address val"
    | (between) "idx < length (Validators vs)" "addresses st1 vs ! idx \<noteq> Address val"
    using le by fastforce
  then show ?thesis
  proof cases
    case at_end
    then have r: "st' = st1" "vs' = vs\<lparr>Validators := Validators vs @ [p], proposer := None, totalVotingPower := 0\<rparr>"
      using res al by (simp_all add: Add_def pv idx_def [symmetric])
    have a': "addresses st' vs' = addresses st1 vs @ [Address val]"
      by (simp add: r addresses_def pv)
    have "\<forall>x \<in> set (take idx (addresses st1 vs)). x < Address val"
      using lo by (rule set_less_from_nth) (simp add: le)
    then have "\<forall>x \<in> set (addresses st1 vs). x < Address val" using at_end by simp
    then have "sorted_wrt (<) (addresses st' vs')"
      using srt1 by (simp add: a' sorted_wrt_append)
    moreover have "wf_refs st' vs'" using wf1 pl by (auto simp: r wf_refs_def)
    ultimately show ?thesis by (simp add: sorted_by_address_def)
  next
    case same
    then have r: "st' = st1" "vs' = vs"
      using res al by (simp_all add: Add_def pv idx_def [symmetric] nth_addresses)
    show ?thesis using wf1 srt1 by (simp add: r sorted_by_address_def)
  next
    case between
    then have r: "st' = st1"
      "vs' = vs\<lparr>Validators := take idx (Validators vs) @ [p] @ drop idx (Validators vs),
                 proposer := None, totalVotingPower := 0\<rparr>"
      using res al by (simp_all add: Add_def pv idx_def [symmetric] nth_addresses)
    have a': "addresses st' vs' = take idx (addresses st1 vs) @ [Address val] @ drop idx (addresses st1 vs)"
      by (simp add: r addresses_def pv take_map drop_map)
    have strict: "\<forall>k. idx \<le> k \<and> k < length (addresses st1 vs) \<longrightarrow> Address val < addresses st1 vs ! k"
    proof (intro allI impI)
      fix k assume k: "idx \<le> k \<and> k < length (addresses st1 vs)"
      then have "Address val \<le> addresses st1 vs ! k" using hi by simp
      moreover have "Address val \<noteq> addresses st1 vs ! k"
      proof (cases "k = idx")
        case True
        then show ?thesis using between(2) by simp
      next
        case False
        with k have "idx < k" by simp
        then have "addresses st1 vs ! idx < addresses st1 vs ! k"
          using srt1 k by (simp add: sorted_wrt_nth_less)
        moreover have "Address val \<le> addresses st1 vs ! idx" using hi between(1) by simp
        ultimately show ?thesis by auto
      qed
      ultimately show "Address val < addresses st1 vs ! k" by simp
    qed
    have "sorted_wrt (<) (addresses st' vs')"
      unfolding a' using srt1 _ lo strict by (rule sorted_wrt_insert_at) (simp add: le)
    moreover have "wf_refs st' vs'"
      using wf1 pl by (auto simp: r wf_refs_def dest: in_set_takeD in_set_dropD)
    ultimately show ?thesis by (simp add: sorted_by_address_def)
  qed
qed

lemma GetByAddress_found:
  assumes srt: "sorted_wrt (<) (addresses st vs)"
    and g: "GetByAddress st vs a = (index, Some v)"
  shows "index < length (Validators vs) \<and> addresses st vs ! index = a"
proof -
  from search_address_least [OF srt, of a]
  have le: "search_address st vs a \<le> length (Validators vs)" by simp
  from g have ne: "search_address st vs a \<noteq> length (Validators vs)"
    and eq: "Address (st ! (Validators vs ! search_address st vs a)) = a"
    and ix: "index = search_address st vs a"
    by (auto simp: GetByAddress_def Let_def split: if_splits)
  from le ne have "index < length (Validators vs)" using ix by simp
  then show ?thesis using eq ix by (simp add: nth_addresses)
qed

lemma Update_preserves:
  assumes wf: "wf_refs st vs" and srt: "sorted_by_address st vs"
    and res: "Update st vs val = ((st', vs'), updated)"
  shows "wf_refs st' vs' \<and> sorted_by_address st' vs'"
proof (cases "snd (GetByAddress st vs (Address val))")
  case None
  then have "st' = st" "vs' = vs" using res by (simp_all add: Update_def split_beta)
  then show ?thesis using wf srt by simp
next
  case (Some v)
  define index where "index = fst (GetByAddress st vs (Address val))"
  have g: "GetByAddress st vs (Address val) = (index, Some v)"
    using Some by (simp add: index_def prod_eq_iff)
  have srt0: "sorted_wrt (<) (addresses st vs)" using srt by (simp add: sorted_by_address_def)
  from GetByAddress_found [OF srt0 g]
  have ix: "index < length (Validators vs)" and av: "addresses st vs ! index = Address val" by simp_all
  have r: "st' = st @ [val]"
    "vs' = vs\<lparr>Validators := (Validators vs)[index := length st], proposer := None, totalVotingPower := 0\<rparr>"
    using res g by (simp_all add: Update_def alloc_def)
  have "addresses st' vs' = (addresses (st @ [val]) vs)[index := Address val]"
    by (simp add: r addresses_def map_update)
  also have "\<dots> = (addresses st vs)[index := Address val]"
    using wf by (simp add: addresses_append_store)
  also have "\<dots> = addresses st vs" using av by (simp add: list_update_same_conv ix)
  finally have "addresses st' vs' = addresses st vs" .
  moreover have "wf_refs st' vs'"
    using wf by (auto simp: r wf_refs_def dest!: set_update_subset_insert [THEN subsetD])
  ultimately show ?thesis using srt by (simp add: sorted_by_address_def)
qed

lemma Remove_preserves:
  assumes wf: "wf_refs st vs" and srt: "sorted_by_address st vs"
    and res: "Remove st vs a = ((st', vs'), removed)"
  shows "wf_refs st' vs' \<and> sorted_by_address st' vs'"
proof -
  define idx where "idx = search_address st vs a"
  show ?thesis
  proof (cases "idx = length (Validators vs) \<or> bytes_Compare (Address (st ! (Validators vs ! idx))) a \<noteq> 0")
    case True
    then have "st' = st" "vs' = vs"
      using res by (auto simp: Remove_def Let_def idx_def [symmetric])
    then show ?thesis using wf srt by simp
  next
    case False
    have dr: "(if idx + 1 < length (Validators vs)
               then take idx (Validators vs) @ drop (idx + 1) (Validators vs)
               else take idx (Validators vs))
              = take idx (Validators vs) @ drop (Suc idx) (Validators vs)"
      by simp
    have r: "st' = st"
      "vs' = vs\<lparr>Validators := take idx (Validators vs) @ drop (Suc idx) (Validators vs),
                 proposer := None, totalVotingPower := 0\<rparr>"
      using res False dr by (auto simp: Remove_def Let_def idx_def [symmetric])
    have "addresses st' vs' = take idx (addresses st vs) @ drop (Suc idx) (addresses st vs)"
      by (simp add: r addresses_def take_map drop_map)
    moreover have "sorted_wrt (<) (take idx (addresses st vs) @ drop (Suc idx) (addresses st vs))"
      using srt unfolding sorted_by_address_def by (rule sorted_wrt_remove_at)
    moreover have "wf_refs st' vs'"
      using wf by (auto simp: r wf_refs_def dest: in_set_takeD in_set_dropD)
    ultimately show ?thesis by (simp add: sorted_by_address_def)
  qed
qed

lemma run_call_preserves: "state_ok s \<Longrightarrow> state_ok (run_call s c)"
proof -
  assume ok: "state_ok s"
  obtain st vs where s: "s = (st, vs)" by (cases s)
  from ok have wf: "wf_refs st vs" and srt: "sorted_by_address st vs" by (simp_all add: s state_ok_def)
  show ?thesis
  proof (cases c)
    case (Call_Add val)
    obtain st' vs' b where "Add st vs val = ((st', vs'), b)" by (metis surj_pair)
    then show ?thesis using Add_preserves [OF wf srt] by (simp add: s Call_Add state_ok_def)
  next
    case (Call_Update val)
    obtain st' vs' b where "Update st vs val = ((st', vs'), b)" by (metis surj_pair)
    then show ?thesis using Update_preserves [OF wf srt] by (simp add: s Call_Update state_ok_def)
  next
    case (Call_Remove a)
    obtain st' vs' b where "Remove st vs a = ((st', vs'), b)" by (metis surj_pair)
    then show ?thesis using Remove_preserves [OF wf srt] by (simp add: s Call_Remove state_ok_def)
  qed
qed

lemma run_calls_preserves: "state_ok s \<Longrightarrow> state_ok (run_calls s calls)"
  unfolding run_calls_def
  by (induction calls arbitrary: s) (simp_all add: run_call_preserves)

lemma copy_vals_eq:
  "copy_vals st vals = (st @ vals, [length st ..< length st + length vals])"
proof (induction vals arbitrary: st)
  case Nil
  then show ?case by simp
next
  case (Cons v vals)
  have "[length st ..< Suc (length st + length vals)]
        = length st # [Suc (length st) ..< Suc (length st + length vals)]"
    by (rule upt_conv_Cons) simp
  then show ?case by (simp add: Cons.IH alloc_def del: upt_Suc)
qed

lemma map_nth_append_upt:
  "map (\<lambda>p. (st @ vals) ! p) [length st ..< length st + length vals] = vals"
  by (rule nth_equalityI) (simp_all add: nth_append)

lemma genValidatorSet_eq:
  "genValidatorSet st vals =
     (st @ vals,
      \<lparr>Validators = sort_key (\<lambda>p. Address ((st @ vals) ! p)) [length st ..< length st + length vals],
       proposer = None, totalVotingPower = 0\<rparr>)"
  by (simp add: genValidatorSet_def copy_vals_eq sort_ValidatorsByAddress_def)

lemma genValidatorSet_members:
  "genValidatorSet st vals = (st', vs') \<Longrightarrow> mset (members st' vs') = mset vals"
proof -
  assume "genValidatorSet st vals = (st', vs')"
  then have s: "st' = st @ vals"
    and v: "Validators vs' = sort_key (\<lambda>p. Address ((st @ vals) ! p)) [length st ..< length st + length vals]"
    by (auto simp: genValidatorSet_eq)
  have "mset (members st' vs') = mset (map (\<lambda>p. (st @ vals) ! p) [length st ..< length st + length vals])"
    unfolding members_def s v by (simp only: mset_map mset_sort)
  then show ?thesis by (simp only: map_nth_append_upt)
qed

lemma genValidatorSet_sorted:
  "genValidatorSet st vals = (st', vs') \<Longrightarrow> sorted (addresses st' vs')"
proof -
  assume "genValidatorSet st vals = (st', vs')"
  then have s: "st' = st @ vals"
    and v: "Validators vs' = sort_key (\<lambda>p. Address ((st @ vals) ! p)) [length st ..< length st + length vals]"
    by (auto simp: genValidatorSet_eq)
  show ?thesis unfolding addresses_def s v by (rule sorted_sort_key)
qed

lemma genValidatorSet_strict_iff:
  assumes "genValidatorSet st vals = (st', vs')"
  shows "sorted_by_address st' vs' = distinct (map Address vals)"
proof -
  have "mset (addresses st' vs') = mset (map Address vals)"
    using genValidatorSet_members [OF assms] by (simp add: addresses_members)
  then have "distinct (addresses st' vs') = distinct (map Address vals)"
    by (rule mset_eq_imp_distinct_iff)
  then show ?thesis
    using genValidatorSet_sorted [OF assms] by (simp add: sorted_by_address_def strict_sorted_iff)
qed

lemma sum_VotingPower_members:
  "sum_VotingPower st ps acc = foldl (\<lambda>a v. wrap64 (a + VotingPower v)) acc (map (\<lambda>p. st ! p) ps)"
  by (induction ps arbitrary: acc) simp_all

lemma genValidatorSet_of_sorted:
  assumes "sorted_wrt (<) (map Address vals)"
  shows "genValidatorSet st vals =
     (st @ vals, \<lparr>Validators = [length st ..< length st + length vals],
                  proposer = None, totalVotingPower = 0\<rparr>)"
proof -
  have "map (\<lambda>p. Address ((st @ vals) ! p)) [length st ..< length st + length vals] = map Address vals"
    using arg_cong [OF map_nth_append_upt [of st vals], of "map Address"]
    by (simp add: comp_def)
  then have "sorted (map (\<lambda>p. Address ((st @ vals) ! p)) [length st ..< length st + length vals])"
    using assms by (simp add: strict_sorted_imp_sorted)
  then show ?thesis by (simp add: genValidatorSet_eq sort_key_id_if_sorted)
qed

lemma sum_VotingPower_exact:
  "0 \<le> acc \<Longrightarrow> \<forall>p \<in> set ps. 0 \<le> VotingPower (st ! p) \<Longrightarrow>
   acc + sum_list (map (\<lambda>p. VotingPower (st ! p)) ps) < 2 ^ 63 \<Longrightarrow>
   sum_VotingPower st ps acc = acc + sum_list (map (\<lambda>p. VotingPower (st ! p)) ps)"
proof (induction ps arbitrary: acc)
  case Nil
  then show ?case by simp
next
  case (Cons p ps)
  have nn: "0 \<le> sum_list (map (\<lambda>p. VotingPower (st ! p)) ps)"
    using Cons.prems(2) by (intro sum_list_nonneg) auto
  have p0: "0 \<le> VotingPower (st ! p)" using Cons.prems(2) by simp
  have w: "wrap64 (acc + VotingPower (st ! p)) = acc + VotingPower (st ! p)"
    using Cons.prems(1,3) nn p0 by (intro wrap64_id) simp_all
  have "sum_VotingPower st ps (acc + VotingPower (st ! p))
        = acc + VotingPower (st ! p) + sum_list (map (\<lambda>p. VotingPower (st ! p)) ps)"
    using Cons.prems p0 by (intro Cons.IH) simp_all
  then show ?case by (simp add: w)
qed

lemma TotalVotingPower_exact:
  assumes nonneg: "\<forall>val \<in> set (Validators vs). 0 \<le> VotingPower (st ! val)"
    and bound: "2 * total_power st vs < 2 ^ 63"
    and cache: "cache_ok st vs"
  shows "fst (TotalVotingPower st vs) = total_power st vs"
    and "fst (TotalVotingPower st (snd (TotalVotingPower st vs))) = total_power st vs"
proof -
  have nn: "0 \<le> total_power st vs"
    unfolding total_power_def using nonneg by (intro sum_list_nonneg) auto
  have "0 + sum_list (map (\<lambda>p. VotingPower (st ! p)) (Validators vs)) < 2 ^ 63"
    using bound nn by (simp add: total_power_def)
  from sum_VotingPower_exact [OF order_refl nonneg this]
  have s: "sum_VotingPower st (Validators vs) 0 = total_power st vs"
    by (simp add: total_power_def)
  show "fst (TotalVotingPower st vs) = total_power st vs"
    using cache s by (auto simp: TotalVotingPower_def cache_ok_def Let_def)
  show "fst (TotalVotingPower st (snd (TotalVotingPower st vs))) = total_power st vs"
    using cache s by (auto simp: TotalVotingPower_def cache_ok_def Let_def)
qed

lemma sum_VotingPower_append_store:
  "\<forall>p \<in> set ps. p < length st \<Longrightarrow> sum_VotingPower (st @ xs) ps acc = sum_VotingPower st ps acc"
  by (induction ps arbitrary: acc) (simp_all add: nth_append)

lemma copy_refs_eq:
  "copy_refs st ps = (st @ map (\<lambda>p. st ! p) ps, [length st ..< length st + length ps])"
  if "\<forall>p \<in> set ps. p < length st"
  using that
proof (induction ps arbitrary: st)
  case Nil
  then show ?case by simp
next
  case (Cons p ps)
  have u: "[length st ..< Suc (length st + length ps)]
        = length st # [Suc (length st) ..< Suc (length st + length ps)]"
    by (rule upt_conv_Cons) simp
  have "\<forall>q \<in> set ps. q < length (st @ [st ! p])" using Cons.prems by auto
  from Cons.IH [OF this] have
    "copy_refs (st @ [st ! p]) ps
     = ((st @ [st ! p]) @ map (\<lambda>q. (st @ [st ! p]) ! q) ps,
        [length (st @ [st ! p]) ..< length (st @ [st ! p]) + length ps])" .
  moreover have "map (\<lambda>q. (st @ [st ! p]) ! q) ps = map (\<lambda>q. st ! q) ps"
    using Cons.prems by (simp add: nth_append)
  ultimately show ?case using u
    by (simp add: Validator_Copy_def alloc_def del: upt_Suc)
qed

lemma Copy_members:
  assumes "wf_refs st vs"
  shows "members (fst (Copy st vs)) (snd (Copy st vs)) = members st vs"
proof -
  have w: "\<forall>p \<in> set (Validators vs). p < length st" using assms by (simp add: wf_refs_def)
  have "members (fst (Copy st vs)) (snd (Copy st vs))
        = map (\<lambda>p. (st @ members st vs) ! p) [length st ..< length st + length (members st vs)]"
    by (simp add: Copy_def copy_refs_eq [OF w] members_def)
  then show ?thesis by (simp only: map_nth_append_upt)
qed

section \<open>Lemmas about the rotation\<close>

lemma frame_of_Accum_update [simp]: "frame_of (val\<lparr>Accum := a\<rparr>) = frame_of val"
  by (simp add: comp_def frame_of_def)

lemma map_frame_update:
  "map frame_of (st[p := (st ! p)\<lparr>Accum := a\<rparr>]) = map frame_of st"
proof (cases "p < length st")
  case True
  then show ?thesis by (simp add: map_update list_update_same_conv)
next
  case False
  then show ?thesis by (simp add: list_update_beyond)
qed

lemma push_all_frame:
  "push_all t ps st h = (st', h') \<Longrightarrow> map frame_of st' = map frame_of st"
proof (induction ps arbitrary: st h)
  case Nil
  then show ?case by simp
next
  case (Cons p ps)
  from Cons.prems Cons.IH show ?case
    by (simp add: Let_def map_frame_update)
qed

lemma push_all_heap:
  "push_all t ps st h = (st', h') \<Longrightarrow> length h' = length h + length ps"
  by (induction ps arbitrary: st h) (auto simp: Let_def Heap_Push_def)

lemma Heap_Peek_nonempty: "h \<noteq> [] \<Longrightarrow> \<exists>m. Heap_Peek h = Some m"
  by (cases h) (simp_all add: Heap_Peek_def)

lemma Heap_Update_length [simp]: "length (Heap_Update h v k) = length h"
  by (simp add: Heap_Update_def)

lemma VotingPower_of_frame:
  "map frame_of st' = map frame_of st \<Longrightarrow> p < length st \<Longrightarrow> VotingPower (st' ! p) = VotingPower (st ! p)"
proof -
  assume eq: "map frame_of st' = map frame_of st" and lt: "p < length st"
  from eq have len: "length st' = length st" by (rule map_eq_imp_length_eq)
  from eq have "map frame_of st' ! p = map frame_of st ! p" by simp
  with lt len have "frame_of (st' ! p) = frame_of (st ! p)" by simp
  then show ?thesis by (simp add: comp_def frame_of_def)
qed

lemma sum_VotingPower_frame:
  "map frame_of st' = map frame_of st \<Longrightarrow> \<forall>p \<in> set ps. p < length st \<Longrightarrow>
   sum_VotingPower st' ps acc = sum_VotingPower st ps acc"
proof (induction ps arbitrary: acc)
  case Nil
  then show ?case by simp
next
  case (Cons p ps)
  from Cons.prems have "VotingPower (st' ! p) = VotingPower (st ! p)"
    using VotingPower_of_frame [of st' st p] by simp
  with Cons show ?case by simp
qed

lemma TotalVotingPower_Validators [simp]:
  "Validators (snd (TotalVotingPower st vs)) = Validators vs"
  by (simp add: TotalVotingPower_def Let_def)

lemma TotalVotingPower_proposer [simp]:
  "proposer (snd (TotalVotingPower st vs)) = proposer vs"
  by (simp add: TotalVotingPower_def Let_def)

lemma TotalVotingPower_again:
  "map frame_of st' = map frame_of st \<Longrightarrow> wf_refs st vs \<Longrightarrow>
   fst (TotalVotingPower st' (snd (TotalVotingPower st vs))) = fst (TotalVotingPower st vs)"
  using sum_VotingPower_frame [of st' st "Validators vs" 0]
  by (simp add: TotalVotingPower_def Let_def wf_refs_def)

lemma TotalVotingPower_proposer_update:
  "fst (TotalVotingPower st (vs\<lparr>proposer := pr\<rparr>)) = fst (TotalVotingPower st vs)"
  by (simp add: TotalVotingPower_def Let_def)

lemma TotalVotingPower_frame:
  "map frame_of st' = map frame_of st \<Longrightarrow> wf_refs st vs \<Longrightarrow>
   fst (TotalVotingPower st' vs) = fst (TotalVotingPower st vs)"
  using sum_VotingPower_frame [of st' st "Validators vs" 0]
  by (simp add: TotalVotingPower_def Let_def wf_refs_def)

lemma decrement_loop_frame:
  "h \<noteq> [] \<Longrightarrow> wf_refs st vs \<Longrightarrow>
   \<exists>st' vs'. decrement_loop n i d st vs h = Inr (st', vs')
     \<and> Validators vs' = Validators vs
     \<and> map frame_of st' = map frame_of st
     \<and> fst (TotalVotingPower st' vs') = fst (TotalVotingPower st vs)"
proof (induction n arbitrary: i st vs h)
  case 0
  then show ?case by simp
next
  case (Suc n)
  from Suc.prems(1) obtain m where peek: "Heap_Peek h = Some m"
    using Heap_Peek_nonempty by blast
  define vs1 where "vs1 = (if i = d then vs\<lparr>proposer := Some m\<rparr> else vs)"
  define vs2 where "vs2 = snd (TotalVotingPower st vs1)"
  define total where "total = fst (TotalVotingPower st vs1)"
  define st1 where "st1 = st[m := (st ! m)\<lparr>Accum := wrap64 (Accum (st ! m) - total)\<rparr>]"
  define h1 where "h1 = Heap_Update h m (accumComparable (wrap64 (Accum (st ! m) - total)))"
  have step: "decrement_loop (Suc n) i d st vs h = decrement_loop n (i + 1) d st1 vs2 h1"
    using peek by (simp add: Let_def vs1_def vs2_def total_def st1_def h1_def split_beta)
  have fr1: "map frame_of st1 = map frame_of st"
    by (simp add: st1_def map_frame_update)
  have v1: "Validators vs1 = Validators vs" by (simp add: vs1_def)
  have v2: "Validators vs2 = Validators vs" by (simp add: vs2_def v1)
  have wf1: "wf_refs st vs1" using Suc.prems(2) v1 by (simp add: wf_refs_def)
  have len1: "length st1 = length st" by (simp add: st1_def)
  have wf2: "wf_refs st1 vs2" using Suc.prems(2) v2 len1 by (simp add: wf_refs_def)
  have t1: "fst (TotalVotingPower st vs1) = fst (TotalVotingPower st vs)"
    by (simp add: vs1_def TotalVotingPower_proposer_update)
  have t2: "fst (TotalVotingPower st1 vs2) = fst (TotalVotingPower st vs)"
    unfolding vs2_def using TotalVotingPower_again [OF fr1 wf1] t1 by simp
  have "h1 \<noteq> []" using Suc.prems(1) by (simp add: h1_def Heap_Update_def)
  from Suc.IH [OF this wf2, of "i + 1"]
  obtain st' vs' where r: "decrement_loop n (i + 1) d st1 vs2 h1 = Inr (st', vs')"
    and rv: "Validators vs' = Validators vs2"
    and rf: "map frame_of st' = map frame_of st1"
    and rt: "fst (TotalVotingPower st' vs') = fst (TotalVotingPower st1 vs2)"
    by blast
  show ?case using step r rv rf rt v2 fr1 t2 by simp
qed

lemmas rotation_defs = IncrementAccum_def NewHeap_def Heap_Push_def Heap_Peek_def Heap_Update_def
  accumComparable_def accumComparable_Less_def TotalVotingPower_def









section \<open>The cached total stays right\<close>

text \<open>
  \<open>cache_ok\<close> holds of every set \<open>genValidatorSet\<close> builds and is kept by
  \<open>TotalVotingPower\<close>, \<open>Add\<close>, \<open>Update\<close>, \<open>Remove\<close>, \<open>Copy\<close> and \<open>IncrementAccum\<close>:
  no operation of the set changes the voting power of an object in place.
\<close>

lemma cache_ok_genValidatorSet: "cache_ok (fst (genValidatorSet st vals)) (snd (genValidatorSet st vals))"
  by (simp add: genValidatorSet_eq cache_ok_def)

lemma cache_ok_TotalVotingPower:
  "cache_ok st vs \<Longrightarrow> cache_ok st (snd (TotalVotingPower st vs))"
  by (auto simp: cache_ok_def TotalVotingPower_def Let_def)

lemma cache_ok_run_call:
  assumes wf: "wf_refs (fst s) (snd s)" and c: "cache_ok (fst s) (snd s)"
  shows "cache_ok (fst (run_call s c')) (snd (run_call s c'))"
proof -
  obtain st vs where s: "s = (st, vs)" by (cases s)
  have ext: "sum_VotingPower (st @ xs) (Validators vs) 0 = sum_VotingPower st (Validators vs) 0" for xs
    using wf by (intro sum_VotingPower_append_store) (simp add: s wf_refs_def)
  show ?thesis
  proof (cases c')
    case (Call_Add val)
    then show ?thesis using c ext [of "[val]"]
      by (auto simp: s Add_def alloc_def Let_def cache_ok_def)
  next
    case (Call_Update val)
    then show ?thesis using c
      by (auto simp: s Update_def alloc_def Let_def cache_ok_def split_beta)
  next
    case (Call_Remove a)
    then show ?thesis using c
      by (auto simp: s Remove_def Let_def cache_ok_def)
  qed
qed

lemma cache_ok_Copy:
  assumes wf: "wf_refs st vs" and c: "cache_ok st vs"
  shows "cache_ok (fst (Copy st vs)) (snd (Copy st vs))"
proof -
  have "sum_VotingPower (fst (Copy st vs)) (Validators (snd (Copy st vs))) 0
        = sum_VotingPower st (Validators vs) 0"
    using Copy_members [OF wf] by (simp add: sum_VotingPower_members members_def)
  moreover have "totalVotingPower (snd (Copy st vs)) = totalVotingPower vs"
    by (simp add: Copy_def split_beta)
  ultimately show ?thesis using c by (simp add: cache_ok_def)
qed

lemma decrement_loop_cache_ok:
  "h \<noteq> [] \<Longrightarrow> wf_refs st vs \<Longrightarrow> cache_ok st vs \<Longrightarrow>
   decrement_loop n i d st vs h = Inr (st', vs') \<Longrightarrow> cache_ok st' vs'"
proof (induction n arbitrary: i st vs h)
  case 0
  then show ?case by simp
next
  case (Suc n)
  from Suc.prems(1) obtain m where peek: "Heap_Peek h = Some m"
    using Heap_Peek_nonempty by blast
  define vs1 where "vs1 = (if i = d then vs\<lparr>proposer := Some m\<rparr> else vs)"
  define vs2 where "vs2 = snd (TotalVotingPower st vs1)"
  define total where "total = fst (TotalVotingPower st vs1)"
  define st1 where "st1 = st[m := (st ! m)\<lparr>Accum := wrap64 (Accum (st ! m) - total)\<rparr>]"
  define h1 where "h1 = Heap_Update h m (accumComparable (wrap64 (Accum (st ! m) - total)))"
  have step: "decrement_loop (Suc n) i d st vs h = decrement_loop n (i + 1) d st1 vs2 h1"
    using peek by (simp add: Let_def vs1_def vs2_def total_def st1_def h1_def split_beta)
  have fr1: "map frame_of st1 = map frame_of st"
    by (simp add: st1_def map_frame_update)
  have len1: "length st1 = length st" by (simp add: st1_def)
  have v1: "Validators vs1 = Validators vs" by (simp add: vs1_def)
  have v2: "Validators vs2 = Validators vs" by (simp add: vs2_def v1)
  have wfq: "\<forall>p \<in> set (Validators vs). p < length st" using Suc.prems(2) by (simp add: wf_refs_def)
  have wf2: "wf_refs st1 vs2" using Suc.prems(2) v2 len1 by (simp add: wf_refs_def)
  have c1: "cache_ok st vs1" using Suc.prems(3) by (simp add: vs1_def cache_ok_def)
  have c2: "cache_ok st vs2" unfolding vs2_def using c1 by (rule cache_ok_TotalVotingPower)
  have "sum_VotingPower st1 (Validators vs) 0 = sum_VotingPower st (Validators vs) 0"
    using fr1 wfq by (rule sum_VotingPower_frame)
  then have c3: "cache_ok st1 vs2" using c2 by (simp add: cache_ok_def v2)
  have hne: "h1 \<noteq> []" using Suc.prems(1) by (simp add: h1_def Heap_Update_def)
  from Suc.prems(4) have "decrement_loop n (i + 1) d st1 vs2 h1 = Inr (st', vs')"
    by (simp only: step)
  from Suc.IH [OF hne wf2 c3 this] show ?case .
qed

lemma cache_ok_IncrementAccum:
  assumes ne: "Validators vs \<noteq> []" and wf: "wf_refs st vs" and c: "cache_ok st vs"
    and r: "IncrementAccum st vs times' = Inr (st', vs')"
  shows "cache_ok st' vs'"
proof -
  obtain st1 h where p: "push_all times' (Validators vs) st NewHeap = (st1, h)"
    by (cases "push_all times' (Validators vs) st NewHeap")
  have fr1: "map frame_of st1 = map frame_of st" using p by (rule push_all_frame)
  have "length h = length (Validators vs)" using push_all_heap [OF p] by (simp add: NewHeap_def)
  with ne have hne: "h \<noteq> []" by auto
  have len1: "length st1 = length st" using fr1 by (rule map_eq_imp_length_eq)
  have wf1: "wf_refs st1 vs" using wf len1 by (simp add: wf_refs_def)
  have wfq: "\<forall>p \<in> set (Validators vs). p < length st" using wf by (simp add: wf_refs_def)
  have "sum_VotingPower st1 (Validators vs) 0 = sum_VotingPower st (Validators vs) 0"
    using fr1 wfq by (rule sum_VotingPower_frame)
  then have c1: "cache_ok st1 vs" using c by (simp add: cache_ok_def)
  have "decrement_loop (nat times') 0 (wrap64 (times' - 1)) st1 vs h = Inr (st', vs')"
    using r p by (simp add: IncrementAccum_def)
  from decrement_loop_cache_ok [OF hne wf1 c1 this] show ?thesis .
qed

section \<open>Lemmas about the tally loop\<close>

lemma tally_Some_pass:
  assumes "vote_checks SignBytes VerifyBytes st vs chainID height round idx vote"
  shows "tally_precommits SignBytes VerifyBytes st vs chainID blockID height round idx
           (Some vote # rest) t =
         (if Data_BlockID (Data vote) = blockID
          then tally_precommits SignBytes VerifyBytes st vs chainID blockID height round (Suc idx) rest
                 (wrap64 (t + VotingPower (st ! (Validators vs ! idx))))
          else tally_precommits SignBytes VerifyBytes st vs chainID blockID height round (Suc idx) rest t)"
  using assms by (auto simp: vote_checks_def signature_valid_def GetByIndex_def Let_def)

lemma tally_Some_bad_signature:
  assumes "Data_Height (Data vote) = height" and "Data_Round (Data vote) = round"
    and "Data_Type (Data vote) = VoteType_Precommit" and "idx < length (Validators vs)"
    and "\<not> signature_valid SignBytes VerifyBytes st vs chainID idx vote"
  shows "tally_precommits SignBytes VerifyBytes st vs chainID blockID height round idx
           (Some vote # rest) t = Inl (Err_InvalidSignature vote)"
  using assms by (simp add: signature_valid_def GetByIndex_def Let_def)

lemma tally_Some_fail:
  assumes "\<not> vote_checks SignBytes VerifyBytes st vs chainID height round idx vote"
  shows "\<exists>e. tally_precommits SignBytes VerifyBytes st vs chainID blockID height round idx
           (Some vote # rest) t = Inl e \<and> \<not> is_insufficient e"
  using assms
  by (auto simp: vote_checks_def signature_valid_def GetByIndex_def Let_def is_insufficient_def)

lemma tally_pass_returns:
  "precommits_pass SignBytes VerifyBytes st vs chainID height round idx pcs \<Longrightarrow>
   \<exists>t'. tally_precommits SignBytes VerifyBytes st vs chainID blockID height round idx pcs t = Inr t'"
proof (induction pcs arbitrary: idx t)
  case Nil
  then show ?case by simp
next
  case (Cons pc pcs)
  show ?case
  proof (cases pc)
    case None
    with Cons show ?thesis by simp
  next
    case (Some vote)
    with Cons.prems have c: "vote_checks SignBytes VerifyBytes st vs chainID height round idx vote"
      and r: "precommits_pass SignBytes VerifyBytes st vs chainID height round (Suc idx) pcs"
      by simp_all
    show ?thesis unfolding Some tally_Some_pass [OF c] using Cons.IH [OF r] by simp
  qed
qed

lemma tally_fail_errors:
  "\<not> precommits_pass SignBytes VerifyBytes st vs chainID height round idx pcs \<Longrightarrow>
   \<exists>e. tally_precommits SignBytes VerifyBytes st vs chainID blockID height round idx pcs t = Inl e
        \<and> \<not> is_insufficient e"
proof (induction pcs arbitrary: idx t)
  case Nil
  then show ?case by simp
next
  case (Cons pc pcs)
  show ?case
  proof (cases pc)
    case None
    with Cons show ?thesis by simp
  next
    case (Some vote)
    show ?thesis
    proof (cases "vote_checks SignBytes VerifyBytes st vs chainID height round idx vote")
      case False
      then show ?thesis unfolding Some by (rule tally_Some_fail)
    next
      case True
      with Cons.prems Some
      have "\<not> precommits_pass SignBytes VerifyBytes st vs chainID height round (Suc idx) pcs"
        by simp
      then show ?thesis unfolding Some tally_Some_pass [OF True] using Cons.IH by simp
    qed
  qed
qed

lemma tally_append:
  "tally_precommits SignBytes VerifyBytes st vs chainID blockID height round idx (pre @ rest) t =
     (case tally_precommits SignBytes VerifyBytes st vs chainID blockID height round idx pre t of
        Inl e \<Rightarrow> Inl e
      | Inr t' \<Rightarrow> tally_precommits SignBytes VerifyBytes st vs chainID blockID height round
                    (idx + length pre) rest t')"
proof (induction pre arbitrary: idx t)
  case Nil
  then show ?case by simp
next
  case (Cons pc pre)
  show ?case
  proof (cases pc)
    case None
    then show ?thesis using Cons.IH by (simp cong: sum.case_cong)
  next
    case (Some vote)
    show ?thesis
    proof (cases "vote_checks SignBytes VerifyBytes st vs chainID height round idx vote")
      case True
      show ?thesis unfolding Some append_Cons tally_Some_pass [OF True] using Cons.IH by (simp cong: sum.case_cong)
    next
      case False
      from tally_Some_fail [OF False, of blockID "pre @ rest" t] obtain e where
        e1: "tally_precommits SignBytes VerifyBytes st vs chainID blockID height round idx
               (Some vote # pre @ rest) t = Inl e" by blast
      from tally_Some_fail [OF False, of blockID pre t] obtain e' where
        e2: "tally_precommits SignBytes VerifyBytes st vs chainID blockID height round idx
               (Some vote # pre) t = Inl e'" by blast
      have "e = e'" using e1 e2 False
        by (auto simp: vote_checks_def signature_valid_def GetByIndex_def Let_def split: if_splits)
      then show ?thesis unfolding Some append_Cons e1 e2 by simp
    qed
  qed
qed

lemma tally_exact:
  assumes nonneg: "\<forall>val \<in> set (Validators vs). 0 \<le> VotingPower (st ! val)"
  shows "precommits_pass SignBytes VerifyBytes st vs chainID height round idx pcs \<Longrightarrow>
         0 \<le> t \<Longrightarrow>
         t + sum_list (map (\<lambda>val. VotingPower (st ! val)) (drop idx (Validators vs))) < 2 ^ 63 \<Longrightarrow>
         tally_precommits SignBytes VerifyBytes st vs chainID blockID height round idx pcs t
           = Inr (t + spec_tally SignBytes VerifyBytes st vs chainID blockID idx pcs)"
proof (induction pcs arbitrary: idx t)
  case Nil
  then show ?case by simp
next
  case (Cons pc pcs)
  have rest0: "0 \<le> sum_list (map (\<lambda>val. VotingPower (st ! val)) (drop (Suc idx) (Validators vs)))"
    using nonneg by (intro sum_list_nonneg) (auto dest: in_set_dropD)
  have mono: "sum_list (map (\<lambda>val. VotingPower (st ! val)) (drop (Suc idx) (Validators vs)))
              \<le> sum_list (map (\<lambda>val. VotingPower (st ! val)) (drop idx (Validators vs)))"
  proof (cases "idx < length (Validators vs)")
    case True
    then have "drop idx (Validators vs) = Validators vs ! idx # drop (Suc idx) (Validators vs)"
      by (simp add: Cons_nth_drop_Suc)
    moreover have "0 \<le> VotingPower (st ! (Validators vs ! idx))" using nonneg True by simp
    ultimately show ?thesis by simp
  next
    case False
    then show ?thesis by simp
  qed
  show ?case
  proof (cases pc)
    case None
    with Cons.prems have r: "precommits_pass SignBytes VerifyBytes st vs chainID height round (Suc idx) pcs"
      by simp
    have b: "t + sum_list (map (\<lambda>val. VotingPower (st ! val)) (drop (Suc idx) (Validators vs))) < 2 ^ 63"
      using Cons.prems(3) mono by simp
    from Cons.IH [OF r Cons.prems(2) b] show ?thesis by (simp add: None)
  next
    case (Some vote)
    with Cons.prems have c: "vote_checks SignBytes VerifyBytes st vs chainID height round idx vote"
      and r: "precommits_pass SignBytes VerifyBytes st vs chainID height round (Suc idx) pcs"
      by simp_all
    from c have lt: "idx < length (Validators vs)"
      and sv: "signature_valid SignBytes VerifyBytes st vs chainID idx vote"
      by (simp_all add: vote_checks_def)
    have d: "drop idx (Validators vs) = Validators vs ! idx # drop (Suc idx) (Validators vs)"
      using lt by (simp add: Cons_nth_drop_Suc)
    have p0: "0 \<le> VotingPower (st ! (Validators vs ! idx))" using nonneg lt by simp
    show ?thesis
    proof (cases "Data_BlockID (Data vote) = blockID")
      case True
      define t1 where "t1 = t + VotingPower (st ! (Validators vs ! idx))"
      have t1b: "t1 + sum_list (map (\<lambda>val. VotingPower (st ! val)) (drop (Suc idx) (Validators vs))) < 2 ^ 63"
        using Cons.prems(3) by (simp add: d t1_def)
      have t10: "0 \<le> t1" using Cons.prems(2) p0 by (simp add: t1_def)
      have "t1 < 2 ^ 63" using t1b rest0 by simp
      then have w: "wrap64 t1 = t1" using t10 by (intro wrap64_id) simp_all
      from Cons.IH [OF r t10 t1b] show ?thesis
        unfolding Some tally_Some_pass [OF c] using True sv w by (simp add: t1_def)
    next
      case False
      have b: "t + sum_list (map (\<lambda>val. VotingPower (st ! val)) (drop (Suc idx) (Validators vs))) < 2 ^ 63"
        using Cons.prems(3) mono by simp
      from Cons.IH [OF r Cons.prems(2) b] show ?thesis
        unfolding Some tally_Some_pass [OF c] using False by simp
    qed
  qed
qed

lemma VerifyCommit_tally_cong:
  assumes "length (Precommits commit') = length (Precommits commit)"
    and "Commit_Height commit' = Commit_Height commit"
    and "tally_precommits SignBytes VerifyBytes st vs chainID blockID height
           (Commit_Round commit') 0 (Precommits commit') 0
         = tally_precommits SignBytes VerifyBytes st vs chainID blockID height
           (Commit_Round commit) 0 (Precommits commit) 0"
  shows "VerifyCommit SignBytes VerifyBytes st vs chainID blockID height commit'
         = VerifyCommit SignBytes VerifyBytes st vs chainID blockID height commit"
  unfolding VerifyCommit_def assms by (rule refl)

section \<open>The quorum rule\<close>

text \<open>
  C1. \<open>VerifyCommit\<close> succeeds exactly when the tallied voting power of the present,
  validly signed precommits for \<open>blockID\<close> exceeds \<open>floor(total * 2 / 3)\<close>, and otherwise
  fails with the insufficient-voting-power error that reports the tally and
  \<open>floor(total * 2 / 3) + 1\<close>. The tally is reached when the checks that come before it
  pass (slot count, height, and per present precommit height, round, type and signature);
  when one of them fails the call fails with that check's error, never with the
  insufficient-voting-power error. The sums are the mathematical ones for voting powers that
  are not negative and whose doubled total fits 64 bits, the domain the spec gives them.
\<close>

theorem VerifyCommit_quorum:
  assumes nonneg: "\<forall>val \<in> set (Validators vs). 0 \<le> VotingPower (st ! val)"
    and bound: "2 * total_power st vs < 2 ^ 63"
    and cache: "cache_ok st vs"
  shows "(commit_checks_pass SignBytes VerifyBytes st vs chainID height commit \<longrightarrow>
            fst (VerifyCommit SignBytes VerifyBytes st vs chainID blockID height commit)
            = (if spec_tally SignBytes VerifyBytes st vs chainID blockID 0 (Precommits commit)
                    > (total_power st vs * 2) div 3
               then None
               else Some (Err_InsufficientVotingPower
                            (spec_tally SignBytes VerifyBytes st vs chainID blockID 0 (Precommits commit))
                            ((total_power st vs * 2) div 3 + 1))))
       \<and> (\<not> commit_checks_pass SignBytes VerifyBytes st vs chainID height commit \<longrightarrow>
            (\<exists>e. fst (VerifyCommit SignBytes VerifyBytes st vs chainID blockID height commit) = Some e
                 \<and> \<not> is_insufficient e))
       \<and> fst (TotalVotingPower st vs) = total_power st vs"
proof (intro conjI impI)
  have nn: "0 \<le> total_power st vs"
    unfolding total_power_def using nonneg by (intro sum_list_nonneg) auto
  note tv = TotalVotingPower_exact [OF nonneg bound cache]
  show "fst (TotalVotingPower st vs) = total_power st vs" by (rule tv(1))
  have w2: "wrap64 (total_power st vs * 2) = total_power st vs * 2"
    using nn bound by (intro wrap64_id) simp_all
  have gd: "go_div (total_power st vs * 2) 3 = (total_power st vs * 2) div 3"
    using nn by (intro go_div_nonneg) simp
  have "(total_power st vs * 2) div 3 \<le> total_power st vs * 2" using nn by simp
  then have w3: "wrap64 ((total_power st vs * 2) div 3 + 1) = (total_power st vs * 2) div 3 + 1"
    using nn bound by (intro wrap64_id) simp_all
  {
    assume pass: "commit_checks_pass SignBytes VerifyBytes st vs chainID height commit"
    then have sz: "Size vs = length (Precommits commit)" and hg: "height = Commit_Height commit"
      and pp: "precommits_pass SignBytes VerifyBytes st vs chainID height (Commit_Round commit) 0
                 (Precommits commit)"
      unfolding commit_checks_pass_def by blast+
    have "0 + sum_list (map (\<lambda>val. VotingPower (st ! val)) (drop 0 (Validators vs))) < 2 ^ 63"
      using bound nn by (simp add: total_power_def)
    from tally_exact [OF nonneg pp order_refl this, of blockID]
    have tl: "tally_precommits SignBytes VerifyBytes st vs chainID blockID height
                (Commit_Round commit) 0 (Precommits commit) 0
              = Inr (spec_tally SignBytes VerifyBytes st vs chainID blockID 0 (Precommits commit))"
      by simp
    show "fst (VerifyCommit SignBytes VerifyBytes st vs chainID blockID height commit)
            = (if spec_tally SignBytes VerifyBytes st vs chainID blockID 0 (Precommits commit)
                    > (total_power st vs * 2) div 3
               then None
               else Some (Err_InsufficientVotingPower
                            (spec_tally SignBytes VerifyBytes st vs chainID blockID 0 (Precommits commit))
                            ((total_power st vs * 2) div 3 + 1)))"
      using sz hg tv tl by (simp add: VerifyCommit_def split_beta w2 gd w3)
  }
  {
    assume np: "\<not> commit_checks_pass SignBytes VerifyBytes st vs chainID height commit"
    show "\<exists>e. fst (VerifyCommit SignBytes VerifyBytes st vs chainID blockID height commit) = Some e
               \<and> \<not> is_insufficient e"
    proof (cases "Size vs \<noteq> length (Precommits commit) \<or> height \<noteq> Commit_Height commit")
      case True
      then show ?thesis by (auto simp: VerifyCommit_def is_insufficient_def)
    next
      case False
      with np have "\<not> precommits_pass SignBytes VerifyBytes st vs chainID height (Commit_Round commit) 0
                 (Precommits commit)"
        by (simp add: commit_checks_pass_def)
      from tally_fail_errors [OF this, of blockID 0] obtain e where
        "tally_precommits SignBytes VerifyBytes st vs chainID blockID height
                (Commit_Round commit) 0 (Precommits commit) 0 = Inl e" and "\<not> is_insufficient e"
        by blast
      then show ?thesis using False by (simp add: VerifyCommit_def)
    qed
  }
qed

theorem VerifyCommit_quorum_witness:
  "cache_ok four_store four_set \<and> 2 * total_power four_store four_set < 2 ^ 63
   \<and> total_power four_store four_set = 4
   \<and> commit_checks_pass example_SignBytes example_VerifyBytes four_store four_set ''chain'' 5
        (commit_of [Some (example_vote [11] target_block), Some (example_vote [12] target_block),
                    Some (example_vote [13] target_block), None])
   \<and> fst (VerifyCommit example_SignBytes example_VerifyBytes four_store four_set ''chain''
             target_block 5
             (commit_of [Some (example_vote [11] target_block), Some (example_vote [12] target_block),
                         Some (example_vote [13] target_block), None])) = None
   \<and> commit_checks_pass example_SignBytes example_VerifyBytes four_store four_set ''chain'' 5
        (commit_of [Some (example_vote [11] target_block), Some (example_vote [12] target_block),
                    Some (example_vote [13] other_block), None])
   \<and> fst (VerifyCommit example_SignBytes example_VerifyBytes four_store four_set ''chain''
             target_block 5
             (commit_of [Some (example_vote [11] target_block), Some (example_vote [12] target_block),
                         Some (example_vote [13] other_block), None]))
       = Some (Err_InsufficientVotingPower 2 3)"
  using VerifyCommit_quorum [where vs = four_set and st = four_store
      and SignBytes = example_SignBytes and VerifyBytes = example_VerifyBytes
      and chainID = "''chain''" and height = 5 and blockID = target_block
      and commit = "commit_of [Some (example_vote [11] target_block),
                    Some (example_vote [12] target_block),
                    Some (example_vote [13] target_block), None]"]
    VerifyCommit_quorum [where vs = four_set and st = four_store
      and SignBytes = example_SignBytes and VerifyBytes = example_VerifyBytes
      and chainID = "''chain''" and height = 5 and blockID = target_block
      and commit = "commit_of [Some (example_vote [11] target_block),
                    Some (example_vote [12] target_block),
                    Some (example_vote [13] other_block), None]"]
  by (simp add: four_store_def four_set_def cache_ok_def total_power_def commit_checks_pass_def
      Size_def commit_of_def example_vote_def vote_checks_def signature_valid_def
      example_SignBytes_def example_VerifyBytes_def target_block_def other_block_def)

section \<open>The key of the priority queue\<close>




section \<open>Precommits for another block, and bad signatures\<close>

text \<open>
  C3. A present precommit that passes the checks and is validly signed, but names another
  block than \<open>blockID\<close>, leaves the running tally as it is and the loop goes on: the call
  returns what it returns with that slot empty. A present precommit whose signature does not
  verify makes the call fail, whatever block it names; the error is the signature error when
  the commit gets that far (slot count and height right, the slots before it pass, and the
  precommit itself has the right height, round and type).
\<close>

theorem VerifyCommit_wrong_block_bad_signature:
  assumes slot: "Precommits commit = pre @ Some vote # post"
  shows "(vote_checks SignBytes VerifyBytes st vs chainID height round idx vote
            \<and> Data_BlockID (Data vote) \<noteq> blockID \<longrightarrow>
          tally_precommits SignBytes VerifyBytes st vs chainID blockID height round idx
            (Some vote # rest) t
          = tally_precommits SignBytes VerifyBytes st vs chainID blockID height round (Suc idx) rest t)
       \<and> (vote_checks SignBytes VerifyBytes st vs chainID height (Commit_Round commit) (length pre) vote
            \<and> Data_BlockID (Data vote) \<noteq> blockID \<longrightarrow>
          VerifyCommit SignBytes VerifyBytes st vs chainID blockID height commit
          = VerifyCommit SignBytes VerifyBytes st vs chainID blockID height
              (commit\<lparr>Precommits := pre @ None # post\<rparr>))
       \<and> (\<not> signature_valid SignBytes VerifyBytes st vs chainID (length pre) vote \<longrightarrow>
          fst (VerifyCommit SignBytes VerifyBytes st vs chainID blockID height commit) \<noteq> None)
       \<and> (\<not> signature_valid SignBytes VerifyBytes st vs chainID (length pre) vote
            \<and> Size vs = length (Precommits commit) \<and> height = Commit_Height commit
            \<and> precommits_pass SignBytes VerifyBytes st vs chainID height (Commit_Round commit) 0 pre
            \<and> Data_Height (Data vote) = height \<and> Data_Round (Data vote) = Commit_Round commit
            \<and> Data_Type (Data vote) = VoteType_Precommit \<longrightarrow>
          fst (VerifyCommit SignBytes VerifyBytes st vs chainID blockID height commit)
          = Some (Err_InvalidSignature vote))"
proof (intro conjI impI)
  assume "vote_checks SignBytes VerifyBytes st vs chainID height round idx vote
            \<and> Data_BlockID (Data vote) \<noteq> blockID"
  then show "tally_precommits SignBytes VerifyBytes st vs chainID blockID height round idx
            (Some vote # rest) t
          = tally_precommits SignBytes VerifyBytes st vs chainID blockID height round (Suc idx) rest t"
    using tally_Some_pass [of SignBytes VerifyBytes st vs chainID height round idx vote blockID rest t]
    by simp
next
  assume h: "vote_checks SignBytes VerifyBytes st vs chainID height (Commit_Round commit) (length pre) vote
            \<and> Data_BlockID (Data vote) \<noteq> blockID"
  have step: "tally_precommits SignBytes VerifyBytes st vs chainID blockID height (Commit_Round commit)
                (length pre) (Some vote # post) t'
              = tally_precommits SignBytes VerifyBytes st vs chainID blockID height (Commit_Round commit)
                (length pre) (None # post) t'" for t'
    using h tally_Some_pass [of SignBytes VerifyBytes st vs chainID height "Commit_Round commit"
        "length pre" vote blockID post t']
    by simp
  have "tally_precommits SignBytes VerifyBytes st vs chainID blockID height (Commit_Round commit) 0
          (pre @ None # post) 0
        = tally_precommits SignBytes VerifyBytes st vs chainID blockID height (Commit_Round commit) 0
          (pre @ Some vote # post) 0"
    unfolding tally_append using step by (simp cong: sum.case_cong)
  then show "VerifyCommit SignBytes VerifyBytes st vs chainID blockID height commit
          = VerifyCommit SignBytes VerifyBytes st vs chainID blockID height
              (commit\<lparr>Precommits := pre @ None # post\<rparr>)"
    using slot by (intro VerifyCommit_tally_cong [symmetric]) simp_all
next
  assume bad: "\<not> signature_valid SignBytes VerifyBytes st vs chainID (length pre) vote"
  have np: "\<not> precommits_pass SignBytes VerifyBytes st vs chainID height (Commit_Round commit) i
            (pre' @ Some vote # post)" if "i + length pre' = length pre" for i pre'
    using that
  proof (induction pre' arbitrary: i)
    case Nil
    then show ?case using bad by (simp add: vote_checks_def)
  next
    case (Cons pc pre')
    then have "\<not> precommits_pass SignBytes VerifyBytes st vs chainID height (Commit_Round commit) (Suc i)
            (pre' @ Some vote # post)" by simp
    then show ?case by (cases pc) simp_all
  qed
  have "\<not> precommits_pass SignBytes VerifyBytes st vs chainID height (Commit_Round commit) 0
            (Precommits commit)"
    unfolding slot by (rule np) simp
  from tally_fail_errors [OF this, of blockID 0] obtain e where
    e: "tally_precommits SignBytes VerifyBytes st vs chainID blockID height
          (Commit_Round commit) 0 (Precommits commit) 0 = Inl e"
    by blast
  show "fst (VerifyCommit SignBytes VerifyBytes st vs chainID blockID height commit) \<noteq> None"
    using e by (auto simp: VerifyCommit_def)
next
  assume h: "\<not> signature_valid SignBytes VerifyBytes st vs chainID (length pre) vote
            \<and> Size vs = length (Precommits commit) \<and> height = Commit_Height commit
            \<and> precommits_pass SignBytes VerifyBytes st vs chainID height (Commit_Round commit) 0 pre
            \<and> Data_Height (Data vote) = height \<and> Data_Round (Data vote) = Commit_Round commit
            \<and> Data_Type (Data vote) = VoteType_Precommit"
  then have pp: "precommits_pass SignBytes VerifyBytes st vs chainID height (Commit_Round commit) 0 pre"
    and sz: "Size vs = length (Precommits commit)" and hg: "height = Commit_Height commit"
    by blast+
  from tally_pass_returns [OF pp, of blockID 0] obtain t' where
    t': "tally_precommits SignBytes VerifyBytes st vs chainID blockID height (Commit_Round commit) 0 pre 0
         = Inr t'" by blast
  have lt: "length pre < length (Validators vs)" using sz slot by (simp add: Size_def)
  have "tally_precommits SignBytes VerifyBytes st vs chainID blockID height (Commit_Round commit)
          (length pre) (Some vote # post) t' = Inl (Err_InvalidSignature vote)"
    using h lt by (intro tally_Some_bad_signature) blast+
  then have "tally_precommits SignBytes VerifyBytes st vs chainID blockID height (Commit_Round commit) 0
          (Precommits commit) 0 = Inl (Err_InvalidSignature vote)"
    unfolding slot tally_append t' by simp
  with sz hg show "fst (VerifyCommit SignBytes VerifyBytes st vs chainID blockID height commit)
          = Some (Err_InvalidSignature vote)"
    by (simp add: VerifyCommit_def)
qed

theorem VerifyCommit_wrong_block_bad_signature_witness:
  "VerifyCommit example_SignBytes example_VerifyBytes four_store four_set ''chain'' target_block 5
     (commit_of [Some (example_vote [11] target_block), Some (example_vote [12] other_block),
                 Some (example_vote [13] target_block), Some (example_vote [14] target_block)])
   = VerifyCommit example_SignBytes example_VerifyBytes four_store four_set ''chain'' target_block 5
     (commit_of [Some (example_vote [11] target_block), None,
                 Some (example_vote [13] target_block), Some (example_vote [14] target_block)])
   \<and> fst (VerifyCommit example_SignBytes example_VerifyBytes four_store four_set ''chain''
             target_block 5
             (commit_of [Some (example_vote [11] target_block), Some (example_vote [12] other_block),
                         Some (example_vote [13] target_block), Some (example_vote [14] target_block)]))
       = None
   \<and> fst (VerifyCommit example_SignBytes example_VerifyBytes four_store four_set ''chain''
             target_block 5
             (commit_of [Some (example_vote [11] target_block), Some (example_vote [12] target_block),
                         Some (example_vote [13] target_block), Some (example_vote [99] other_block)]))
       = Some (Err_InvalidSignature (example_vote [99] other_block))"
proof -
  have abstain:
    "VerifyCommit example_SignBytes example_VerifyBytes four_store four_set ''chain'' target_block 5
       (commit_of [Some (example_vote [11] target_block), Some (example_vote [12] other_block),
                   Some (example_vote [13] target_block), Some (example_vote [14] target_block)])
     = VerifyCommit example_SignBytes example_VerifyBytes four_store four_set ''chain'' target_block 5
       (commit_of [Some (example_vote [11] target_block), None,
                   Some (example_vote [13] target_block), Some (example_vote [14] target_block)])"
    using VerifyCommit_wrong_block_bad_signature
      [where commit = "commit_of [Some (example_vote [11] target_block),
                        Some (example_vote [12] other_block),
                        Some (example_vote [13] target_block),
                        Some (example_vote [14] target_block)]"
         and pre = "[Some (example_vote [11] target_block)]"
         and vote = "example_vote [12] other_block"
         and post = "[Some (example_vote [13] target_block), Some (example_vote [14] target_block)]"
         and SignBytes = example_SignBytes and VerifyBytes = example_VerifyBytes
         and st = four_store and vs = four_set and chainID = "''chain''" and height = 5
         and blockID = target_block]
    by (simp add: commit_of_def example_vote_def vote_checks_def signature_valid_def
        example_SignBytes_def example_VerifyBytes_def four_store_def four_set_def
        target_block_def other_block_def)
  have ok:
    "fst (VerifyCommit example_SignBytes example_VerifyBytes four_store four_set ''chain''
             target_block 5
             (commit_of [Some (example_vote [11] target_block), None,
                         Some (example_vote [13] target_block), Some (example_vote [14] target_block)]))
       = None"
    by (simp add: VerifyCommit_def Size_def commit_of_def example_vote_def GetByIndex_def
        example_SignBytes_def example_VerifyBytes_def four_store_def four_set_def
        target_block_def TotalVotingPower_def go_div_def wrap64_def)
  have bad:
    "fst (VerifyCommit example_SignBytes example_VerifyBytes four_store four_set ''chain''
             target_block 5
             (commit_of [Some (example_vote [11] target_block), Some (example_vote [12] target_block),
                         Some (example_vote [13] target_block), Some (example_vote [99] other_block)]))
       = Some (Err_InvalidSignature (example_vote [99] other_block))"
    using VerifyCommit_wrong_block_bad_signature
      [where commit = "commit_of [Some (example_vote [11] target_block),
                        Some (example_vote [12] target_block),
                        Some (example_vote [13] target_block),
                        Some (example_vote [99] other_block)]"
         and pre = "[Some (example_vote [11] target_block), Some (example_vote [12] target_block),
                     Some (example_vote [13] target_block)]"
         and vote = "example_vote [99] other_block"
         and post = "[]"
         and SignBytes = example_SignBytes and VerifyBytes = example_VerifyBytes
         and st = four_store and vs = four_set and chainID = "''chain''" and height = 5
         and blockID = target_block]
    by (simp add: commit_of_def example_vote_def vote_checks_def signature_valid_def Size_def
        example_SignBytes_def example_VerifyBytes_def four_store_def four_set_def)
  show ?thesis using abstain ok bad by simp
qed

section \<open>The rotation example\<close>

text \<open>
  C4. Two validators A (voting power 2) and B (voting power 1), both with accum 0, at any
  addresses. In the first step (\<open>times = 1\<close>) the first loop leaves A with accum 2 and B
  with accum 1; A is the proposer and ends with accum -1. In the second step the first loop
  leaves A with accum 1 and B with accum 2; B is the proposer and ends with accum -1, A
  keeps accum 1. A is the object at \<open>length st\<close>, B the one after it. In both steps the
  keys in the queue differ, so the peek does not depend on how the queue treats equal keys.
\<close>

theorem rotation_example:
  "\<exists>vs0 stp1 h1 st1 vs1 stp2 h2 st2 vs2.
     genValidatorSet st [example_A aA kA, example_B aB kB]
       = (st @ [example_A aA kA, example_B aB kB], vs0)
   \<and> push_all 1 (Validators vs0) (st @ [example_A aA kA, example_B aB kB]) NewHeap = (stp1, h1)
   \<and> Accum (stp1 ! length st) = 2 \<and> Accum (stp1 ! Suc (length st)) = 1
   \<and> distinct (map snd h1)
   \<and> IncrementAccum (st @ [example_A aA kA, example_B aB kB]) vs0 1 = Inr (st1, vs1)
   \<and> proposer vs1 = Some (length st)
   \<and> Accum (st1 ! length st) = - 1 \<and> Accum (st1 ! Suc (length st)) = 1
   \<and> fst (Proposer st1 vs1) = Some ((example_A aA kA)\<lparr>Accum := - 1\<rparr>)
   \<and> push_all 1 (Validators vs1) st1 NewHeap = (stp2, h2)
   \<and> Accum (stp2 ! length st) = 1 \<and> Accum (stp2 ! Suc (length st)) = 2
   \<and> distinct (map snd h2)
   \<and> IncrementAccum st1 vs1 1 = Inr (st2, vs2)
   \<and> proposer vs2 = Some (Suc (length st))
   \<and> Accum (st2 ! Suc (length st)) = - 1 \<and> Accum (st2 ! length st) = 1
   \<and> fst (Proposer st2 vs2) = Some ((example_B aB kB)\<lparr>Accum := - 1\<rparr>)"
  by (cases "aA \<le> aB")
     (simp_all add: genValidatorSet_def alloc_def sort_ValidatorsByAddress_def
        example_A_def example_B_def rotation_defs wrap64_numeral_simps nth_append
        list_update_append Proposer_def)

section \<open>The sort invariant\<close>

text \<open>
  C5. From a set whose addresses are strictly ascending (hence without duplicates), after
  every call of a sequence of \<open>Add\<close>, \<open>Update\<close> and \<open>Remove\<close> calls the addresses are
  again strictly ascending and without duplicates.
\<close>

theorem sort_invariant:
  assumes "wf_refs st vs" and "sorted_by_address st vs"
  shows "\<forall>k \<le> length calls.
           sorted_by_address (fst (run_calls (st, vs) (take k calls)))
                             (snd (run_calls (st, vs) (take k calls)))
           \<and> distinct (addresses (fst (run_calls (st, vs) (take k calls)))
                                  (snd (run_calls (st, vs) (take k calls))))"
proof (intro allI impI)
  fix k
  have "state_ok (st, vs)" using assms by (simp add: state_ok_def)
  then have "state_ok (run_calls (st, vs) (take k calls))" by (rule run_calls_preserves)
  then show "sorted_by_address (fst (run_calls (st, vs) (take k calls)))
                             (snd (run_calls (st, vs) (take k calls)))
           \<and> distinct (addresses (fst (run_calls (st, vs) (take k calls)))
                                  (snd (run_calls (st, vs) (take k calls))))"
    by (simp add: state_ok_def sorted_by_address_def strict_sorted_iff)
qed

theorem sort_invariant_witness:
  "wf_refs four_store four_set \<and> sorted_by_address four_store four_set
   \<and> sorted_by_address
        (fst (run_calls (four_store, four_set)
               [Call_Remove [2], Call_Add tie_second, Call_Add tie_second,
                Call_Update (tie_third\<lparr>VotingPower := 9\<rparr>), Call_Remove [7]]))
        (snd (run_calls (four_store, four_set)
               [Call_Remove [2], Call_Add tie_second, Call_Add tie_second,
                Call_Update (tie_third\<lparr>VotingPower := 9\<rparr>), Call_Remove [7]]))
   \<and> distinct (addresses
        (fst (run_calls (four_store, four_set)
               [Call_Remove [2], Call_Add tie_second, Call_Add tie_second,
                Call_Update (tie_third\<lparr>VotingPower := 9\<rparr>), Call_Remove [7]]))
        (snd (run_calls (four_store, four_set)
               [Call_Remove [2], Call_Add tie_second, Call_Add tie_second,
                Call_Update (tie_third\<lparr>VotingPower := 9\<rparr>), Call_Remove [7]])))
   \<and> addresses
        (fst (run_calls (four_store, four_set)
               [Call_Remove [2], Call_Add tie_second, Call_Add tie_second,
                Call_Update (tie_third\<lparr>VotingPower := 9\<rparr>), Call_Remove [7]]))
        (snd (run_calls (four_store, four_set)
               [Call_Remove [2], Call_Add tie_second, Call_Add tie_second,
                Call_Update (tie_third\<lparr>VotingPower := 9\<rparr>), Call_Remove [7]]))
       = [[1], [2], [3], [4]]"
proof -
  have wf: "wf_refs four_store four_set"
    by (simp add: wf_refs_def four_store_def four_set_def)
  have srt: "sorted_by_address four_store four_set"
    by (simp add: sorted_by_address_def addresses_def four_store_def four_set_def)
  note inv = sort_invariant [OF wf srt,
      of "[Call_Remove [2], Call_Add tie_second, Call_Add tie_second,
           Call_Update (tie_third\<lparr>VotingPower := 9\<rparr>), Call_Remove [7]]"]
  have run: "addresses
        (fst (run_calls (four_store, four_set)
               [Call_Remove [2], Call_Add tie_second, Call_Add tie_second,
                Call_Update (tie_third\<lparr>VotingPower := 9\<rparr>), Call_Remove [7]]))
        (snd (run_calls (four_store, four_set)
               [Call_Remove [2], Call_Add tie_second, Call_Add tie_second,
                Call_Update (tie_third\<lparr>VotingPower := 9\<rparr>), Call_Remove [7]]))
       = [[1], [2], [3], [4]]"
    by (simp add: run_calls_def Add_def Update_def Remove_def GetByAddress_def search_address_def
        sort_Search_def sort_Search_loop.simps alloc_def addresses_def four_store_def four_set_def
        tie_second_def tie_third_def nth_append)
  from inv [THEN spec, of 5] show ?thesis using wf srt run by simp
qed

section \<open>Deserialization\<close>

text \<open>
  C6, as the code has it. \<open>ValSetFromJsonBytes\<close> sorts the stored validators by address and
  keeps every one of them: the result is sorted by address (not strictly), its members are
  the stored validators, each as often as it was stored, and its addresses are strictly
  ascending exactly when the stored addresses are distinct. Nothing checks for duplicates.
\<close>

theorem ValSetFromJsonBytes_sorted_not_unique:
  assumes "Unmarshal data = Some vset"
  shows "\<exists>st' vs'. ValSetFromJsonBytes Unmarshal st data = Some (st', vs')
           \<and> sorted (addresses st' vs')
           \<and> mset (members st' vs') = mset vset
           \<and> sorted_by_address st' vs' = distinct (map Address vset)"
proof -
  obtain st' vs' where g: "genValidatorSet st vset = (st', vs')" by (cases "genValidatorSet st vset")
  have "ValSetFromJsonBytes Unmarshal st data = Some (st', vs')"
    using assms g by (simp add: ValSetFromJsonBytes_def)
  then show ?thesis
    using genValidatorSet_sorted [OF g] genValidatorSet_members [OF g] genValidatorSet_strict_iff [OF g]
    by blast
qed

theorem ValSetFromJsonBytes_sorted_not_unique_witness:
  "(\<lambda>data. Some [dup_second, \<lparr>Address = [0], PubKey = [], VotingPower = 1, Accum = 0\<rparr>]) ([] :: bytes)
     = Some [dup_second, \<lparr>Address = [0], PubKey = [], VotingPower = 1, Accum = 0\<rparr>]
   \<and> (\<exists>st' vs'. ValSetFromJsonBytes
          (\<lambda>data. Some [dup_second, \<lparr>Address = [0], PubKey = [], VotingPower = 1, Accum = 0\<rparr>]) [] []
          = Some (st', vs')
        \<and> sorted (addresses st' vs')
        \<and> mset (members st' vs')
            = mset [dup_second, \<lparr>Address = [0], PubKey = [], VotingPower = 1, Accum = 0\<rparr>]
        \<and> sorted_by_address st' vs'
            = distinct (map Address [dup_second, \<lparr>Address = [0], PubKey = [], VotingPower = 1, Accum = 0\<rparr>]))"
  using ValSetFromJsonBytes_sorted_not_unique
    [of "\<lambda>data. Some [dup_second, \<lparr>Address = [0], PubKey = [], VotingPower = 1, Accum = 0\<rparr>]" "[]"
        "[dup_second, \<lparr>Address = [0], PubKey = [], VotingPower = 1, Accum = 0\<rparr>]" "[]"]
  by simp

text \<open>
  C6, as stated, fails: from two stored validators with the same address the result holds
  both, and its addresses are not strictly ascending.
\<close>

theorem ValSetFromJsonBytes_duplicates_kept:
  "ValSetFromJsonBytes (\<lambda>data. Some [dup_first, dup_second]) [] []
     = Some ([dup_first, dup_second], \<lparr>Validators = [0, 1], proposer = None, totalVotingPower = 0\<rparr>)
   \<and> addresses [dup_first, dup_second] \<lparr>Validators = [0, 1], proposer = None, totalVotingPower = 0\<rparr>
       = [[1], [1]]
   \<and> \<not> sorted_by_address [dup_first, dup_second]
         \<lparr>Validators = [0, 1], proposer = None, totalVotingPower = 0\<rparr>"
  by (simp add: ValSetFromJsonBytes_def genValidatorSet_def alloc_def sort_ValidatorsByAddress_def
      dup_first_def dup_second_def addresses_def sorted_by_address_def)

section \<open>Copy and the proposer pointer\<close>

text \<open>
  C7. \<open>Copy\<close> makes a new object for every validator and carries the proposer pointer
  over, so the proposer of the copy is still an object of the original. With
  \<open>s = NewValidatorSet([A, B])\<close> and \<open>c = s.Copy()\<close>, \<open>c.Proposer()\<close> is A with accum
  -1; after \<open>s.IncrementAccum(1)\<close> the members of \<open>c\<close> are as before, and
  \<open>c.Proposer()\<close> is A with accum 1.
\<close>

theorem Copy_shares_proposer:
  "\<exists>st1 s st2 c st3 s'.
     NewValidatorSet [] (Some [example_A [1] [11], example_B [2] [12]]) = Inr (st1, s)
   \<and> Copy st1 s = (st2, c)
   \<and> proposer c = proposer s
   \<and> fst (Proposer st2 c) = Some ((example_A [1] [11])\<lparr>Accum := - 1\<rparr>)
   \<and> IncrementAccum st2 s 1 = Inr (st3, s')
   \<and> members st3 c = members st2 c
   \<and> fst (Proposer st3 c) = Some ((example_A [1] [11])\<lparr>Accum := 1\<rparr>)
   \<and> fst (Proposer st3 c) \<noteq> fst (Proposer st2 c)"
  by (simp add: NewValidatorSet_def genValidatorSet_def alloc_def sort_ValidatorsByAddress_def
      example_A_def example_B_def rotation_defs wrap64_numeral_simps Copy_def Validator_Copy_def
      Proposer_def members_def)

section \<open>The round trip through JSON\<close>

text \<open>
  C8. For a set with strictly ascending addresses, and a JSON codec that reads back the list
  it wrote, \<open>ValSetFromJsonBytes\<close> of \<open>JSONBytes\<close> of the set has the same members in the
  same order, hence the same \<open>Hash()\<close>, and the same \<open>TotalVotingPower()\<close>.
\<close>

theorem serialize_roundtrip:
  assumes codec: "\<forall>vals bs. Marshal vals = Some bs \<longrightarrow> Unmarshal bs = Some vals"
    and ser: "JSONBytes Marshal st vs = Some data"
    and srt: "sorted_by_address st vs"
    and cache: "cache_ok st vs"
  shows "\<exists>st' vs'. ValSetFromJsonBytes Unmarshal st0 data = Some (st', vs')
           \<and> members st' vs' = members st vs
           \<and> Hash SimpleHash st' vs' = Hash SimpleHash st vs
           \<and> fst (TotalVotingPower st' vs') = fst (TotalVotingPower st vs)"
proof -
  define vals where "vals = members st vs"
  define st' where "st' = st0 @ vals"
  define vs' where "vs' = \<lparr>Validators = [length st0 ..< length st0 + length vals],
                             proposer = None, totalVotingPower = 0\<rparr>"
  have "Marshal vals = Some data" using ser by (simp add: JSONBytes_def vals_def members_def)
  then have un: "Unmarshal data = Some vals" using codec by blast
  have "sorted_wrt (<) (map Address vals)"
    using srt by (simp add: sorted_by_address_def addresses_members vals_def)
  then have g: "genValidatorSet st0 vals = (st', vs')"
    unfolding st'_def vs'_def by (rule genValidatorSet_of_sorted)
  have r: "ValSetFromJsonBytes Unmarshal st0 data = Some (st', vs')"
    using un g by (simp add: ValSetFromJsonBytes_def)
  have m: "members st' vs' = members st vs"
  proof -
    have "members st' vs' = map (\<lambda>p. (st0 @ vals) ! p) [length st0 ..< length st0 + length vals]"
      by (simp add: members_def st'_def vs'_def)
    also have "\<dots> = vals" by (rule map_nth_append_upt)
    finally show ?thesis by (simp add: vals_def)
  qed
  have len: "length (Validators vs') = length (Validators vs)"
    using arg_cong [OF m, of length] by (simp add: members_def)
  have h: "Hash SimpleHash st' vs' = Hash SimpleHash st vs"
    using m len by (simp add: Hash_def members_def)
  have "sum_VotingPower st' (Validators vs') 0 = sum_VotingPower st (Validators vs) 0"
    using m by (simp add: sum_VotingPower_members members_def)
  then have t: "fst (TotalVotingPower st' vs') = fst (TotalVotingPower st vs)"
    using cache by (auto simp: TotalVotingPower_def Let_def cache_ok_def vs'_def)
  show ?thesis using r m h t by blast
qed

theorem serialize_roundtrip_witness:
  "JSONBytes toy_Marshal [tie_first, tie_second]
     \<lparr>Validators = [0, 1], proposer = Some 0, totalVotingPower = 2\<rparr> = Some [0]
   \<and> sorted_by_address [tie_first, tie_second]
        \<lparr>Validators = [0, 1], proposer = Some 0, totalVotingPower = 2\<rparr>
   \<and> cache_ok [tie_first, tie_second]
        \<lparr>Validators = [0, 1], proposer = Some 0, totalVotingPower = 2\<rparr>
   \<and> (\<exists>st' vs'. ValSetFromJsonBytes toy_Unmarshal [tie_third] [0] = Some (st', vs')
         \<and> members st' vs' = [tie_first, tie_second]
         \<and> Hash example_SimpleHash st' vs'
             = Hash example_SimpleHash [tie_first, tie_second]
                 \<lparr>Validators = [0, 1], proposer = Some 0, totalVotingPower = 2\<rparr>
         \<and> fst (TotalVotingPower st' vs') = 2)"
proof -
  have codec: "\<forall>vals bs. toy_Marshal vals = Some bs \<longrightarrow> toy_Unmarshal bs = Some vals"
    by (simp add: toy_Marshal_def toy_Unmarshal_def)
  have ser: "JSONBytes toy_Marshal [tie_first, tie_second]
     \<lparr>Validators = [0, 1], proposer = Some 0, totalVotingPower = 2\<rparr> = Some [0]"
    by (simp add: JSONBytes_def toy_Marshal_def)
  have srt: "sorted_by_address [tie_first, tie_second]
        \<lparr>Validators = [0, 1], proposer = Some 0, totalVotingPower = 2\<rparr>"
    by (simp add: sorted_by_address_def addresses_def tie_first_def tie_second_def)
  have cache: "cache_ok [tie_first, tie_second]
        \<lparr>Validators = [0, 1], proposer = Some 0, totalVotingPower = 2\<rparr>"
    by (simp add: cache_ok_def tie_first_def tie_second_def wrap64_def)
  from serialize_roundtrip [OF codec ser srt cache, of "[tie_third]" example_SimpleHash]
  show ?thesis using ser srt cache
    by (simp add: members_def TotalVotingPower_def)
qed

section \<open>Construction from a nil list\<close>

text \<open>
  C9. \<open>NewValidatorSet(nil)\<close> returns the set \<open>genValidatorSet\<close> builds, with no validators
  and both caches empty: the rotation step is not taken (on this set it would panic, the
  queue being empty), so no proposer is recorded. \<open>Proposer()\<close> on that set returns nil and
  leaves the set as it is.
\<close>

theorem NewValidatorSet_nil:
  "NewValidatorSet st None
     = Inr (st, \<lparr>Validators = [], proposer = None, totalVotingPower = 0\<rparr>)
   \<and> NewValidatorSet st None = Inr (genValidatorSet st [])
   \<and> IncrementAccum st \<lparr>Validators = [], proposer = None, totalVotingPower = 0\<rparr> 1
       = Inl Panic_NilPeek
   \<and> Proposer st \<lparr>Validators = [], proposer = None, totalVotingPower = 0\<rparr>
       = (None, \<lparr>Validators = [], proposer = None, totalVotingPower = 0\<rparr>)"
  by (simp add: NewValidatorSet_def genValidatorSet_def sort_ValidatorsByAddress_def
      IncrementAccum_def NewHeap_def Heap_Peek_def Proposer_def)

section \<open>What the rotation leaves alone\<close>

text \<open>
  C10. On a set that is not empty \<open>IncrementAccum\<close> returns, for every \<open>times\<close> (so for
  every \<open>times \<ge> 1\<close>), and it changes only accums and the caches: the list of validators
  is the same, no object is added, every object keeps its address, public key and voting
  power, the addresses of the set are in the same order, and \<open>TotalVotingPower()\<close> returns
  what it returned before.
\<close>

theorem IncrementAccum_frame:
  assumes nonempty: "Validators vs \<noteq> []" and wf: "wf_refs st vs"
  shows "\<exists>st' vs'. IncrementAccum st vs times' = Inr (st', vs')
     \<and> Validators vs' = Validators vs
     \<and> length st' = length st
     \<and> map Address st' = map Address st
     \<and> map PubKey st' = map PubKey st
     \<and> map VotingPower st' = map VotingPower st
     \<and> addresses st' vs' = addresses st vs
     \<and> fst (TotalVotingPower st' vs') = fst (TotalVotingPower st vs)"
proof -
  obtain st1 h where p: "push_all times' (Validators vs) st NewHeap = (st1, h)"
    by (cases "push_all times' (Validators vs) st NewHeap")
  have fr1: "map frame_of st1 = map frame_of st" using p by (rule push_all_frame)
  have "length h = length (Validators vs)" using push_all_heap [OF p] by (simp add: NewHeap_def)
  with nonempty have hne: "h \<noteq> []" by auto
  have len1: "length st1 = length st" using fr1 by (rule map_eq_imp_length_eq)
  have wf1: "wf_refs st1 vs" using wf len1 by (simp add: wf_refs_def)
  from decrement_loop_frame [OF hne wf1, of "nat times'" 0 "wrap64 (times' - 1)"]
  obtain st' vs' where r: "decrement_loop (nat times') 0 (wrap64 (times' - 1)) st1 vs h = Inr (st', vs')"
    and rv: "Validators vs' = Validators vs"
    and rf: "map frame_of st' = map frame_of st1"
    and rt: "fst (TotalVotingPower st' vs') = fst (TotalVotingPower st1 vs)"
    by blast
  have fr: "map frame_of st' = map frame_of st" using rf fr1 by simp
  have ia: "IncrementAccum st vs times' = Inr (st', vs')"
    using p r by (simp add: IncrementAccum_def)
  have len: "length st' = length st" using fr by (rule map_eq_imp_length_eq)
  have a: "map Address st' = map Address st"
    using arg_cong [OF fr, of "map fst"] by (simp add: comp_def frame_of_def)
  have k: "map PubKey st' = map PubKey st"
    using arg_cong [OF fr, of "map (\<lambda>x. fst (snd x))"] by (simp add: comp_def frame_of_def)
  have v: "map VotingPower st' = map VotingPower st"
    using arg_cong [OF fr, of "map (\<lambda>x. snd (snd x))"] by (simp add: comp_def frame_of_def)
  have ord: "addresses st' vs' = addresses st vs"
  proof -
    have "\<And>q. q \<in> set (Validators vs) \<Longrightarrow> Address (st' ! q) = Address (st ! q)"
    proof -
      fix q assume "q \<in> set (Validators vs)"
      then have lt: "q < length st" using wf by (simp add: wf_refs_def)
      have "map Address st' ! q = map Address st ! q" using a by simp
      then show "Address (st' ! q) = Address (st ! q)" using lt len by simp
    qed
    then show ?thesis using rv by (simp add: addresses_def)
  qed
  have t: "fst (TotalVotingPower st' vs') = fst (TotalVotingPower st vs)"
    using rt TotalVotingPower_frame [OF fr1 wf] by simp
  show ?thesis
    apply (rule exI [where x = st'])
    apply (rule exI [where x = vs'])
    apply (intro conjI ia rv len a k v ord t)
    done
qed

theorem IncrementAccum_frame_witness:
  "Validators four_set \<noteq> [] \<and> wf_refs four_store four_set
   \<and> (\<exists>st' vs'. IncrementAccum four_store four_set 3 = Inr (st', vs')
         \<and> Validators vs' = Validators four_set
         \<and> length st' = length four_store
         \<and> map Address st' = map Address four_store
         \<and> map PubKey st' = map PubKey four_store
         \<and> map VotingPower st' = map VotingPower four_store
         \<and> addresses st' vs' = addresses four_store four_set
         \<and> fst (TotalVotingPower st' vs') = fst (TotalVotingPower four_store four_set))"
  using IncrementAccum_frame [of four_set four_store 3]
  by (simp add: four_set_def four_store_def wf_refs_def)

end
